theory Spec2Isabelle
  imports Complex_Main
begin

section \<open>JavaScript values used by the Paginator\<close>

text \<open>
  The constructor of \<open>src/services/pagination/Paginator.js\<close> inspects its arguments with
  \<open>typeof\<close>, with \<open>!== null\<close> and with \<open>||\<close>, so the arguments are modelled as JavaScript
  values. A number is a finite double, held as the rational it is equal to; arithmetic on
  numbers rounds as the doubles do and can overflow to an infinity (next section). \<open>NaN\<close>
  and the infinities as arguments are outside the model, and the negative zero is not told
  from zero (the program prints both as \<open>0\<close>). A result row is a value too (an object of
  named fields).
\<close>

datatype jsval =
    Undefined
  | Null
  | Bool bool
  | Num (the_num: rat)
  | Str string
  | Arr "jsval list"
  | Obj "(string \<times> jsval) list"

fun typeof :: "jsval \<Rightarrow> string" where
  "typeof Undefined = ''undefined''"
| "typeof Null = ''object''"
| "typeof (Bool b) = ''boolean''"
| "typeof (Num n) = ''number''"
| "typeof (Str s) = ''string''"
| "typeof (Arr xs) = ''object''"
| "typeof (Obj fs) = ''object''"

text \<open>Truthiness, as \<open>||\<close> tests it: \<open>undefined\<close>, \<open>null\<close>, \<open>false\<close>, \<open>0\<close> and the empty
  string are falsy.\<close>

fun truthy :: "jsval \<Rightarrow> bool" where
  "truthy Undefined = False"
| "truthy Null = False"
| "truthy (Bool b) = b"
| "truthy (Num n) = (n \<noteq> 0)"
| "truthy (Str s) = (s \<noteq> [])"
| "truthy (Arr xs) = True"
| "truthy (Obj fs) = True"

definition js_or :: "jsval \<Rightarrow> jsval \<Rightarrow> jsval" where
  "js_or a b = (if truthy a then a else b)"

text \<open>A parameter with a default value takes the default when the argument is omitted,
  that is when it is \<open>undefined\<close>.\<close>

definition default_param :: "jsval \<Rightarrow> jsval \<Rightarrow> jsval" where
  "default_param arg dflt = (if arg = Undefined then dflt else arg)"

text \<open>Reading an array at an index: \<open>undefined\<close> out of range (also at \<open>-1\<close>).\<close>

definition js_index :: "jsval list \<Rightarrow> int \<Rightarrow> jsval" where
  "js_index xs i = (if 0 \<le> i \<and> i < int (length xs) then xs ! nat i else Undefined)"

section \<open>Numbers are doubles\<close>

text \<open>
  A JavaScript number is an IEEE 754 double: 53 significant bits, exponents up to 1023,
  subnormal numbers in steps of \<open>2^-1074\<close>. \<open>round_double\<close> is the rounding of an exact
  result to the nearest number of this grid, ties to the even significand, before the
  exponent range is looked at: \<open>ilog2 a\<close> is the exponent of \<open>a\<close>, the step of the grid at
  \<open>a\<close> is \<open>2\<close> to the power \<open>ilog2 a - 52\<close>, and not below \<open>2^-1074\<close>. A rounded result
  overflows when its exponent is above 1023; \<open>fl\<close> is the result of an operation whose
  exact value is given, finite or an infinity.
\<close>

function bit_length :: "int \<Rightarrow> nat" where
  "bit_length n = (if n \<le> 0 then 0 else Suc (bit_length (n div 2)))"
  by auto
termination
  by (relation "measure nat") auto

declare bit_length.simps [simp del]

definition pow2 :: "int \<Rightarrow> rat" where
  "pow2 e = (if 0 \<le> e then 2 ^ nat e else 1 / 2 ^ nat (- e))"

definition ilog2 :: "rat \<Rightarrow> int" where
  "ilog2 a = (if 1 \<le> a then int (bit_length \<lfloor>a\<rfloor>) - 1
              else - int (bit_length (\<lceil>1 / a\<rceil> - 1)))"

definition round_half_even :: "rat \<Rightarrow> int" where
  "round_half_even r =
     (let f = \<lfloor>r\<rfloor>; d = r - of_int f
      in if d < 1 / 2 then f else if 1 / 2 < d then f + 1 else if even f then f else f + 1)"

definition round_double :: "rat \<Rightarrow> rat" where
  "round_double q =
     (if q = 0 then 0
      else let a = \<bar>q\<bar>; ulp = pow2 (max (ilog2 a - 52) (- 1074))
           in sgn q * (of_int (round_half_even (a / ulp)) * ulp))"

definition overflows :: "rat \<Rightarrow> bool" where
  "overflows r \<longleftrightarrow> r \<noteq> 0 \<and> 1023 < ilog2 \<bar>r\<bar>"

definition is_double :: "rat \<Rightarrow> bool" where
  "is_double q \<longleftrightarrow> round_double q = q \<and> \<not> overflows q"

datatype number = Finite rat | PosInfinity | NegInfinity

definition fl :: "rat \<Rightarrow> number" where
  "fl q = (let r = round_double q
           in if overflows r then (if 0 < r then PosInfinity else NegInfinity) else Finite r)"

text \<open>
  The operations of the program: a product and a sum of two finite numbers, and a
  difference whose left operand is the result of a product. An infinity minus a finite
  number is that infinity. \<open>negative\<close> is the test \<open>< 0\<close>.
\<close>

definition js_mul :: "rat \<Rightarrow> rat \<Rightarrow> number" where
  "js_mul a b = fl (a * b)"

definition js_add :: "rat \<Rightarrow> rat \<Rightarrow> number" where
  "js_add a b = fl (a + b)"

fun js_sub :: "number \<Rightarrow> rat \<Rightarrow> number" where
  "js_sub (Finite a) b = fl (a - b)"
| "js_sub PosInfinity b = PosInfinity"
| "js_sub NegInfinity b = NegInfinity"

fun negative :: "number \<Rightarrow> bool" where
  "negative (Finite x) = (x < 0)"
| "negative PosInfinity = False"
| "negative NegInfinity = True"

subsection \<open>Numbers in a template literal\<close>

text \<open>
  \<open>`${n}`\<close> is \<open>Number::toString\<close> of ECMAScript: with \<open>k\<close> the least number of
  digits for which a decimal \<open>s * 10^(n - k)\<close> of \<open>k\<close> digits rounds to the number, the
  text is the digits of \<open>s\<close> with the point placed by \<open>n\<close>, padded with zeros, for
  \<open>-6 < n \<le> 21\<close>, and the exponent notation otherwise. \<open>candidate x k\<close> looks at the
  two decimals of \<open>k\<close> digits next to \<open>x\<close> and takes the nearer one that rounds to \<open>x\<close>;
  \<open>shortest\<close> tries \<open>k = 1, 2, ...\<close>; seventeen digits always read back as the same
  double.
\<close>

definition digit :: "nat \<Rightarrow> char" where
  "digit d = ''0123456789'' ! d"

function digits :: "int \<Rightarrow> string" where
  "digits n = (if n < 10 then [digit (nat n)] else digits (n div 10) @ [digit (nat (n mod 10))])"
  by auto
termination
  by (relation "measure nat") auto

declare digits.simps [simp del]

definition pow10 :: "int \<Rightarrow> rat" where
  "pow10 e = (if 0 \<le> e then 10 ^ nat e else 1 / 10 ^ nat (- e))"

definition decimal_exponent :: "rat \<Rightarrow> int" where
  "decimal_exponent x =
     (if 1 \<le> x then int (length (digits \<lfloor>x\<rfloor>))
      else 1 - int (length (digits (\<lceil>1 / x\<rceil> - 1))))"

text \<open>
  \<open>candidate x k\<close> is \<open>Some (n, s)\<close> when a decimal of \<open>k\<close> digits reads back as \<open>x\<close>:
  \<open>s\<close> is its digits as an integer and \<open>n\<close> the position of the point; it is \<open>None\<close> when
  neither neighbour of \<open>x\<close> does. The neighbour \<open>10^k\<close> is the decimal \<open>1\<close> followed by zeros,
  one position up.
\<close>

definition candidate :: "rat \<Rightarrow> nat \<Rightarrow> (int \<times> int) option" where
  "candidate x k =
     (let n = decimal_exponent x;
          scale = pow10 (n - int k);
          lo = \<lfloor>x / scale\<rfloor>;
          hi = lo + 1;
          ok_lo = (fl (of_int lo * scale) = fl x);
          ok_hi = (fl (of_int hi * scale) = fl x);
          pick_hi = (ok_hi \<and> (\<not> ok_lo \<or> of_int hi * scale - x < x - of_int lo * scale
                       \<or> (of_int hi * scale - x = x - of_int lo * scale \<and> even hi)));
          s = (if pick_hi then hi else lo)
      in if \<not> ok_lo \<and> \<not> ok_hi then None
         else if s = 10 ^ k then Some (n + 1, 10 ^ (k - 1))
         else Some (n, s))"

fun shortest :: "rat \<Rightarrow> nat \<Rightarrow> nat \<Rightarrow> int \<times> nat \<times> int" where
  "shortest x k 0 = (decimal_exponent x, k, \<lfloor>x / pow10 (decimal_exponent x - int k)\<rfloor>)"
| "shortest x k (Suc fuel) =
     (case candidate x k of
        Some (n, s) \<Rightarrow> (n, k, s)
      | None \<Rightarrow> shortest x (Suc k) fuel)"

definition positive_to_string :: "rat \<Rightarrow> string" where
  "positive_to_string x =
     (case shortest x 1 17 of (n, k, s) \<Rightarrow>
        let ds = digits s in
        if int k \<le> n \<and> n \<le> 21 then ds @ replicate (nat (n - int k)) CHR ''0''
        else if 0 < n \<and> n \<le> 21 then take (nat n) ds @ ''.'' @ drop (nat n) ds
        else if - 6 < n \<and> n \<le> 0 then ''0.'' @ replicate (nat (- n)) CHR ''0'' @ ds
        else let e = n - 1;
                 es = (if e < 0 then ''-'' else ''+'') @ digits \<bar>e\<bar>
             in if k = 1 then ds @ ''e'' @ es else [hd ds] @ ''.'' @ tl ds @ ''e'' @ es)"

fun number_to_string :: "number \<Rightarrow> string" where
  "number_to_string (Finite x) =
     (if x = 0 then ''0''
      else if x < 0 then ''-'' @ positive_to_string (- x) else positive_to_string x)"
| "number_to_string PosInfinity = ''Infinity''"
| "number_to_string NegInfinity = ''-Infinity''"

section \<open>The exception of the constructor\<close>

text \<open>
  \<open>new LesgoException(message, code, 500, {perPage})\<close>: the class is imported from
  \<open>exceptions/LesgoException\<close>; the value below is the four arguments it is built from.
\<close>

datatype exn =
  LesgoException (message: string) (code: string) (statusCode: int)
    (extra: "(string \<times> jsval) list")

definition FILE :: string where
  "FILE = ''Services/pagination/Paginator''"

section \<open>The Paginator\<close>

record paginator =
  sqlProp :: string
  sqlParamsProp :: jsval
  perPageProp :: rat
  currentPageProp :: rat
  hasNext :: bool
  response :: "jsval list"

definition constructor :: "string \<Rightarrow> jsval \<Rightarrow> jsval \<Rightarrow> jsval \<Rightarrow> exn + paginator" where
  "constructor sql sqlParams perPage currentPageArg =
     (let currentPage = default_param currentPageArg Null in
      if typeof perPage = ''undefined'' then
        Inl (LesgoException (''Missing required '' @ [CHR 0x27] @ ''perPage'' @ [CHR 0x27])
               (FILE @ ''::MISSING_REQUIRED_PER_PAGE'') 500 [(''perPage'', perPage)])
      else if typeof perPage \<noteq> ''number'' then
        Inl (LesgoException (''Invalid type for '' @ [CHR 0x27] @ ''perPage'' @ [CHR 0x27])
               (FILE @ ''::INVALID_TYPE_PER_PAGE'') 500 [(''perPage'', perPage)])
      else if currentPage \<noteq> Null \<and> typeof currentPage \<noteq> ''number'' then
        Inl (LesgoException (''Invalid type for '' @ [CHR 0x27] @ ''currentPage'' @ [CHR 0x27])
               (FILE @ ''::INVALID_TYPE_CURRENT_PAGE'') 500 [(''currentPage'', currentPage)])
      else
        Inr \<lparr> sqlProp = sql,
              sqlParamsProp = sqlParams,
              perPageProp = the_num perPage,
              currentPageProp = the_num (js_or currentPage (Num 1)),
              hasNext = False,
              response = [] \<rparr>)"

subsection \<open>Synchronous methods\<close>

text \<open>These read fields only: they are functions of the instance and have no access to
  the data source. One less or one more than a finite double is a finite double again, so
  \<open>currentPage() - 1\<close> and \<open>currentPage() + 1\<close> are the rounded difference and sum.\<close>

definition currentPage :: "paginator \<Rightarrow> rat" where
  "currentPage p = currentPageProp p"

definition perPage :: "paginator \<Rightarrow> rat" where
  "perPage p = perPageProp p"

definition previousPage :: "paginator \<Rightarrow> jsval" where
  "previousPage p =
     (if currentPage p > 1 then Num (round_double (currentPage p - 1)) else Bool False)"

record limit_and_offset =
  offset :: number
  limit :: rat

definition getLimitAndOffsetByPageAndContentPerPage :: "paginator \<Rightarrow> limit_and_offset" where
  "getLimitAndOffsetByPageAndContentPerPage p =
     \<lparr> offset = js_sub (js_mul (currentPage p) (perPage p)) (perPage p),
       limit = perPage p \<rparr>"

definition generatePaginationSqlSnippet :: "paginator \<Rightarrow> string" where
  "generatePaginationSqlSnippet p =
     (let values = getLimitAndOffsetByPageAndContentPerPage p;
          limitWithExtraData = js_add (limit values) 1
      in sqlProp p @ '' LIMIT '' @ number_to_string limitWithExtraData @
           '' OFFSET '' @ number_to_string (offset values))"

subsection \<open>The data source\<close>

text \<open>
  \<open>db.select(sql, params)\<close> is the external collaborator: from its own state, a query
  text and the bind parameters it gives an error or the rows, and its next state. Every
  call is appended to \<open>executed\<close>, which the program does not read: it is there to
  count the executions.
\<close>

type_synonym ('d, 'e) select = "'d \<Rightarrow> string \<Rightarrow> jsval \<Rightarrow> ('e + jsval list) \<times> 'd"

record 'd world =
  db :: 'd
  executed :: "(string \<times> jsval) list"

definition db_select ::
  "('d, 'e) select \<Rightarrow> 'd world \<Rightarrow> string \<Rightarrow> jsval \<Rightarrow> ('e + jsval list) \<times> 'd world" where
  "db_select sel w q ps =
     (case sel (db w) q ps of
        (r, d') \<Rightarrow> (r, w\<lparr> db := d', executed := executed w @ [(q, ps)] \<rparr>))"

subsection \<open>Asynchronous methods\<close>

text \<open>
  An \<open>async\<close> method whose caller awaits it is a function from the instance and the world
  to a result, or the error it rejects with, and the instance and the world afterwards.
  \<open>await\<close> passes the error of the awaited call on and otherwise continues with its value.
  Calls that overlap, issued without awaiting the one before, are outside this model.
\<close>

type_synonym 'd pstate = "paginator \<times> 'd world"

definition await ::
  "('e + 'a) \<times> 's \<Rightarrow> ('a \<Rightarrow> 's \<Rightarrow> ('e + 'b) \<times> 's) \<Rightarrow> ('e + 'b) \<times> 's" where
  "await m k = (case m of (Inl e, s) \<Rightarrow> (Inl e, s) | (Inr v, s) \<Rightarrow> k v s)"

definition executeQuery :: "('d, 'e) select \<Rightarrow> 'd pstate \<Rightarrow> ('e + jsval) \<times> 'd pstate" where
  "executeQuery sel s =
     (case s of (p, w) \<Rightarrow>
        (case db_select sel w (generatePaginationSqlSnippet p) (sqlParamsProp p) of
           (Inl e, w') \<Rightarrow> (Inl e, (p, w'))
         | (Inr rows, w') \<Rightarrow>
             (let p1 = p\<lparr> response := rows \<rparr>;
                  p2 = p1\<lparr> hasNext := (of_nat (length (response p1)) > perPage p1) \<rparr>;
                  p3 = (if hasNext p2 then p2\<lparr> response := butlast (response p2) \<rparr> else p2)
              in (Inr (Arr (response p3)), (p3, w')))))"

definition count :: "('d, 'e) select \<Rightarrow> 'd pstate \<Rightarrow> ('e + jsval) \<times> 'd pstate" where
  "count sel s =
     await (if length (response (fst s)) \<le> 0 then executeQuery sel s else (Inr Undefined, s))
       (\<lambda>_ s'. (Inr (Num (of_nat (length (response (fst s'))))), s'))"

definition nextPage :: "('d, 'e) select \<Rightarrow> 'd pstate \<Rightarrow> ('e + jsval) \<times> 'd pstate" where
  "nextPage sel s =
     await (if length (response (fst s)) \<le> 0 then executeQuery sel s else (Inr Undefined, s))
       (\<lambda>_ s'. (Inr (if hasNext (fst s')
                         then Num (round_double (currentPage (fst s') + 1))
                         else Bool False), s'))"

definition firstItem :: "('d, 'e) select \<Rightarrow> 'd pstate \<Rightarrow> ('e + jsval) \<times> 'd pstate" where
  "firstItem sel s =
     await (if length (response (fst s)) \<le> 0 then executeQuery sel s else (Inr Undefined, s))
       (\<lambda>_ s'. (Inr (js_index (response (fst s')) 0), s'))"

definition lastItem :: "('d, 'e) select \<Rightarrow> 'd pstate \<Rightarrow> ('e + jsval) \<times> 'd pstate" where
  "lastItem sel s =
     await (if length (response (fst s)) \<le> 0 then executeQuery sel s else (Inr Undefined, s))
       (\<lambda>_ s'. (Inr (js_index (response (fst s')) (int (length (response (fst s'))) - 1)), s'))"

definition items :: "('d, 'e) select \<Rightarrow> 'd pstate \<Rightarrow> ('e + jsval) \<times> 'd pstate" where
  "items sel s =
     await (if length (response (fst s)) \<le> 0 then executeQuery sel s else (Inr Undefined, s))
       (\<lambda>_ s'. (Inr (Arr (response (fst s'))), s'))"

definition toObject :: "('d, 'e) select \<Rightarrow> 'd pstate \<Rightarrow> ('e + jsval) \<times> 'd pstate" where
  "toObject sel s =
     await (if length (response (fst s)) \<le> 0 then executeQuery sel s else (Inr Undefined, s))
       (\<lambda>_ s1. await (count sel s1)
         (\<lambda>c s2. await (nextPage sel s2)
           (\<lambda>n s3. await (items sel s3)
             (\<lambda>it s4. (Inr (Obj [(''count'', c),
                                  (''previous_page'', previousPage (fst s2)),
                                  (''current_page'', Num (currentPage (fst s2))),
                                  (''next_page'', n),
                                  (''per_page'', Num (perPage (fst s3))),
                                  (''items'', it)]), s4)))))"

subsection \<open>Callers\<close>

text \<open>
  A caller issues the result-dependent accessors one after the other, awaiting each; it
  may catch an error and go on, so a sequence of calls gives the list of their outcomes.
\<close>

datatype accessor = Count | NextPage | FirstItem | LastItem | Items | ToObject

fun call :: "('d, 'e) select \<Rightarrow> accessor \<Rightarrow> 'd pstate \<Rightarrow> ('e + jsval) \<times> 'd pstate" where
  "call sel Count s = count sel s"
| "call sel NextPage s = nextPage sel s"
| "call sel FirstItem s = firstItem sel s"
| "call sel LastItem s = lastItem sel s"
| "call sel Items s = items sel s"
| "call sel ToObject s = toObject sel s"

fun calls ::
  "('d, 'e) select \<Rightarrow> accessor list \<Rightarrow> 'd pstate \<Rightarrow> ('e + jsval) list \<times> 'd pstate" where
  "calls sel [] s = ([], s)"
| "calls sel (a # as) s =
     (case call sel a s of (r, s') \<Rightarrow> (case calls sel as s' of (rs, s'') \<Rightarrow> (r # rs, s'')))"

section \<open>Scenarios\<close>

text \<open>
  The instances and data sources of the scenarios: the base query \<open>SELECT id FROM t\<close>
  with no bind parameters and ten rows per page, at page two and with the page number
  omitted; a data source that answers every query with the same \<open>k\<close> rows; and one whose
  first call fails and whose later calls give five rows. \<open>fetched11\<close> and \<open>summary11\<close>
  are the state and the summary of page two once the source has answered with eleven rows.
\<close>

definition page_two :: paginator where
  "page_two = \<lparr> sqlProp = ''SELECT id FROM t'', sqlParamsProp = Arr [], perPageProp = 10,
                 currentPageProp = 2, hasNext = False, response = [] \<rparr>"

definition page_one :: paginator where
  "page_one = \<lparr> sqlProp = ''SELECT id FROM t'', sqlParamsProp = Arr [], perPageProp = 10,
                 currentPageProp = 1, hasNext = False, response = [] \<rparr>"

definition row :: "nat \<Rightarrow> jsval" where
  "row i = Obj [(''id'', Num (of_nat i))]"

definition source_rows :: "nat \<Rightarrow> (unit, string) select" where
  "source_rows k d q ps = (Inr (map row [0..<k]), d)"

definition fails_first :: "(nat, string) select" where
  "fails_first d q ps = (if d = 0 then Inl ''ECONNREFUSED'' else Inr (map row [0..<5]), Suc d)"

definition world0 :: "'d \<Rightarrow> 'd world" where
  "world0 d = \<lparr> db = d, executed = [] \<rparr>"

definition summary11 :: jsval where
  "summary11 = Obj [(''count'', Num 10), (''previous_page'', Num 1), (''current_page'', Num 2),
                    (''next_page'', Num 3), (''per_page'', Num 10),
                    (''items'', Arr (map row [0..<10]))]"

definition fetched11 :: "unit pstate" where
  "fetched11 = (page_two\<lparr> hasNext := True, response := map row [0..<10] \<rparr>,
                \<lparr> db = (), executed = [(''SELECT id FROM t LIMIT 11 OFFSET 10'', Arr [])] \<rparr>)"

section \<open>Auxiliary facts\<close>

text \<open>The part of an instance that no method assigns after construction.\<close>

definition config :: "paginator \<Rightarrow> string \<times> jsval \<times> rat \<times> rat" where
  "config p = (sqlProp p, sqlParamsProp p, perPageProp p, currentPageProp p)"

text \<open>An instance with the configuration of \<open>p\<close> whose cache holds at most the page size
  of \<open>p\<close>.\<close>

definition page_bounded :: "paginator \<Rightarrow> 'd pstate \<Rightarrow> bool" where
  "page_bounded p s \<longleftrightarrow>
     config (fst s) = config p \<and> of_nat (length (response (fst s))) \<le> perPage p"

text \<open>An outcome that, when it is an error, is an error the data source gave to the
  windowed query of \<open>p\<close>, with the cache left empty.\<close>

definition fails_with ::
  "('d, 'e) select \<Rightarrow> paginator \<Rightarrow> ('e + jsval) \<times> 'd pstate \<Rightarrow> bool" where
  "fails_with sel p m \<longleftrightarrow>
     (\<forall>e. fst m = Inl e \<longrightarrow>
        response (fst (snd m)) = [] \<and>
        (\<exists>d. fst (sel d (generatePaginationSqlSnippet p) (sqlParamsProp p)) = Inl e))"

lemmas ctor_defs = constructor_def default_param_def js_or_def Let_def

lemma constructor_Num:
  "constructor sql ps (Num s) (Num n) =
     Inr \<lparr> sqlProp = sql, sqlParamsProp = ps, perPageProp = s,
           currentPageProp = (if n = 0 then 1 else n), hasNext = False, response = [] \<rparr>"
  by (simp add: ctor_defs)

lemma constructor_Inr:
  assumes "constructor sql ps pp cp = Inr p"
  shows "sqlProp p = sql \<and> sqlParamsProp p = ps \<and> pp = Num (perPageProp p) \<and>
         hasNext p = False \<and> response p = [] \<and>
         currentPageProp p = (if truthy cp then the_num cp else 1) \<and>
         (cp = Undefined \<or> cp = Null \<or> cp = Num (the_num cp))"
  using assms by (cases pp; cases cp) (auto simp: ctor_defs split: if_splits)

subsection \<open>Rounding\<close>

lemma bit_length_pos: "0 < n \<Longrightarrow> 0 < bit_length n"
  by (subst bit_length.simps) simp

lemma bit_length_bounds:
  "0 < n \<Longrightarrow> 2 ^ (bit_length n - 1) \<le> n \<and> n < 2 ^ bit_length n"
proof (induction n rule: bit_length.induct)
  case (1 n)
  from "1.prems" have bl: "bit_length n = Suc (bit_length (n div 2))"
    by (subst bit_length.simps) simp
  show ?case
  proof (cases "n div 2 = 0")
    case True
    with "1.prems" have "n = 1" by presburger
    moreover have "bit_length (1::int) = 1"
      by (subst bit_length.simps, subst bit_length.simps) simp
    ultimately show ?thesis by simp
  next
    case False
    with "1.prems" have pos: "0 < n div 2" by presburger
    with "1.IH" "1.prems" have ih: "2 ^ (bit_length (n div 2) - 1) \<le> n div 2"
      "n div 2 < 2 ^ bit_length (n div 2)"
      by simp_all
    from bit_length_pos [OF pos] obtain b where b: "bit_length (n div 2) = Suc b"
      by (cases "bit_length (n div 2)") auto
    from ih b have "2 ^ b \<le> n div 2" "n div 2 < 2 * 2 ^ b" by simp_all
    then have "2 * 2 ^ b \<le> n" "n < 2 * (2 * 2 ^ b)" by presburger+
    with bl b show ?thesis by simp
  qed
qed


lemma pow2_pos [simp]: "0 < pow2 e"
  by (simp add: pow2_def)

lemma pow2_nat: "pow2 (int n) = 2 ^ n"
  by (simp add: pow2_def)

lemma pow2_neg_nat: "pow2 (- int n) = 1 / 2 ^ n"
  by (cases "n = 0") (simp_all add: pow2_def)

lemma pow2_add: "pow2 (a + b) = pow2 a * pow2 b"
proof -
  have "pow2 e = 2 powi e" for e
    by (auto simp: pow2_def power_int_def field_simps)
  then show ?thesis by (simp add: power_int_add)
qed

lemma pow2_mono: "a \<le> b \<Longrightarrow> pow2 a \<le> pow2 b"
proof -
  assume "a \<le> b"
  then obtain n where "b = a + int n" by (metis zle_iff_zadd)
  then have "pow2 b = pow2 a * 2 ^ n" by (simp add: pow2_add pow2_nat)
  moreover have "(1::rat) \<le> 2 ^ n" by simp
  ultimately show ?thesis
    by (metis mult.right_neutral mult_le_cancel_left_pos pow2_pos)
qed

lemma ilog2_bounds:
  assumes "0 < a"
  shows "pow2 (ilog2 a) \<le> a \<and> a < pow2 (ilog2 a + 1)"
proof (cases "1 \<le> a")
  case True
  then have f: "0 < \<lfloor>a\<rfloor>" by simp
  from bit_length_bounds [OF f] have lo: "2 ^ (bit_length \<lfloor>a\<rfloor> - 1) \<le> \<lfloor>a\<rfloor>"
    and hi: "\<lfloor>a\<rfloor> < 2 ^ bit_length \<lfloor>a\<rfloor>" by simp_all
  from bit_length_pos [OF f] obtain b where b: "bit_length \<lfloor>a\<rfloor> = Suc b"
    by (cases "bit_length \<lfloor>a\<rfloor>") auto
  from True b have e: "ilog2 a = int b" by (simp add: ilog2_def)
  from lo b have "(2::int) ^ b \<le> \<lfloor>a\<rfloor>" by simp
  then have "of_int ((2::int) ^ b) \<le> a" by (simp only: le_floor_iff)
  then have 1: "2 ^ b \<le> a" by simp
  from hi b have "\<lfloor>a\<rfloor> < 2 ^ Suc b" by simp
  then have "a < of_int (2 ^ Suc b)" by (simp only: floor_less_iff)
  then have 2: "a < 2 ^ Suc b" by simp
  have "int b + 1 = int (Suc b)" by simp
  then have "pow2 (int b + 1) = 2 ^ Suc b"
    by (simp only: pow2_nat)
  with 1 2 e show ?thesis by (simp add: pow2_nat)
next
  case False
  with assms have a1: "a < 1" by simp
  with assms have inv: "1 < 1 / a" by simp
  define c where "c = \<lceil>1 / a\<rceil>"
  from inv have c2: "2 \<le> c" unfolding c_def by (simp add: le_ceiling_iff)
  then have m: "0 < c - 1" by simp
  from bit_length_bounds [OF m] have lo: "2 ^ (bit_length (c - 1) - 1) \<le> c - 1"
    and hi: "c - 1 < 2 ^ bit_length (c - 1)" by simp_all
  from bit_length_pos [OF m] obtain b where b: "bit_length (c - 1) = Suc b"
    by (cases "bit_length (c - 1)") auto
  from False b have e: "ilog2 a = - int (Suc b)" by (simp add: ilog2_def c_def)
  from hi b have "c \<le> 2 ^ Suc b" by simp
  then have "1 / a \<le> of_int (2 ^ Suc b)" unfolding c_def by (simp only: ceiling_le_iff)
  then have "1 / a \<le> 2 ^ Suc b" by simp
  with assms have "1 \<le> 2 ^ Suc b * a" by (simp add: field_simps)
  then have 1: "1 / 2 ^ Suc b \<le> a" by (simp add: field_simps)
  from lo b have "2 ^ b \<le> c - 1" by simp
  then have "(2::int) ^ b < c" by simp
  then have "of_int ((2::int) ^ b) < 1 / a" unfolding c_def by (simp only: less_ceiling_iff)
  then have "2 ^ b < 1 / a" by simp
  with assms have "2 ^ b * a < 1" by (simp add: field_simps)
  then have 2: "a < 1 / 2 ^ b" by (simp add: field_simps)
  have p1: "pow2 (- int (Suc b)) = 1 / 2 ^ Suc b" by (rule pow2_neg_nat)
  have "- int (Suc b) + 1 = - int b" by simp
  then have p2: "pow2 (- int (Suc b) + 1) = 1 / 2 ^ b" by (simp only: pow2_neg_nat)
  from 1 2 e p1 p2 show ?thesis by simp
qed

lemma rhe_of_int [simp]: "round_half_even (of_int z) = z"
  by (simp add: round_half_even_def)

lemma rhe_ge: "of_int z \<le> r \<Longrightarrow> z \<le> round_half_even r"
proof -
  assume "of_int z \<le> r"
  then have "z \<le> \<lfloor>r\<rfloor>" by (simp add: le_floor_iff)
  then show ?thesis by (auto simp: round_half_even_def Let_def)
qed

lemma rhe_nonneg: "0 \<le> r \<Longrightarrow> 0 \<le> round_half_even r"
  using rhe_ge [of 0 r] by simp


lemma round_double_0 [simp]: "round_double 0 = 0"
  by (simp add: round_double_def)

lemma round_double_minus: "round_double (- q) = - round_double q"
  by (simp add: round_double_def Let_def)

lemma round_double_nonneg: "0 \<le> q \<Longrightarrow> 0 \<le> round_double q"
  by (auto simp: round_double_def Let_def intro!: mult_nonneg_nonneg rhe_nonneg
      divide_nonneg_pos less_imp_le [OF pow2_pos])

lemma round_double_nonpos: "q \<le> 0 \<Longrightarrow> round_double q \<le> 0"
  using round_double_nonneg [of "- q"] by (simp add: round_double_minus)

lemma round_double_exact:
  assumes "0 < a" and "a = of_int m * pow2 (max (ilog2 a - 52) (- 1074))"
  shows "round_double a = a"
proof -
  define ulp where "ulp = pow2 (max (ilog2 a - 52) (- 1074))"
  have u: "0 < ulp" by (simp add: ulp_def)
  from assms(2) have eq: "a = of_int m * ulp" unfolding ulp_def .
  have "a / ulp = of_int m" using u by (subst eq) simp
  then have r: "round_half_even (a / ulp) = m" by simp
  have "round_double a = of_int (round_half_even (a / ulp)) * ulp"
    using assms(1) by (simp add: round_double_def Let_def ulp_def)
  also have "\<dots> = of_int m * ulp" by (simp only: r)
  also have "\<dots> = a" by (simp only: eq [symmetric])
  finally show ?thesis .
qed

lemma ulp_le:
  assumes "pow2 (- 1074) \<le> a"
  shows "pow2 (max (ilog2 a - 52) (- 1074)) \<le> a"
proof (cases "- 1074 \<le> ilog2 a - 52")
  case True
  have pos: "0 < a" using assms pow2_pos [of "- 1074"] by linarith
  from True have "max (ilog2 a - 52) (- 1074) = ilog2 a - 52" by simp
  moreover have "pow2 (ilog2 a - 52) \<le> pow2 (ilog2 a)" by (rule pow2_mono) simp
  moreover from ilog2_bounds [OF pos] have "pow2 (ilog2 a) \<le> a" by simp
  ultimately show ?thesis by simp
next
  case False
  then have "max (ilog2 a - 52) (- 1074) = - 1074" by simp
  with assms show ?thesis by simp
qed

lemma round_double_pos:
  assumes "pow2 (- 1074) \<le> a"
  shows "0 < round_double a"
proof -
  define ulp where "ulp = pow2 (max (ilog2 a - 52) (- 1074))"
  have u: "0 < ulp" by (simp add: ulp_def)
  have pos: "0 < a" using assms pow2_pos [of "- 1074"] by linarith
  from ulp_le [OF assms] have "ulp \<le> a" by (simp add: ulp_def)
  with u have "of_int 1 \<le> a / ulp" by (simp add: field_simps)
  then have "1 \<le> round_half_even (a / ulp)" by (rule rhe_ge)
  then have "(0::rat) < of_int (round_half_even (a / ulp))" by simp
  with u have "0 < of_int (round_half_even (a / ulp)) * ulp" by simp
  with pos show ?thesis
    by (simp add: round_double_def Let_def ulp_def [symmetric])
qed

lemma double_ge_min:
  assumes "is_double d" and "0 < d"
  shows "pow2 (- 1074) \<le> d"
proof -
  define ulp where "ulp = pow2 (max (ilog2 d - 52) (- 1074))"
  define m where "m = round_half_even (d / ulp)"
  have u: "0 < ulp" by (simp add: ulp_def)
  from assms have "round_double d = d" by (simp add: is_double_def)
  with assms(2) have d: "d = of_int m * ulp"
    by (simp add: round_double_def Let_def ulp_def [symmetric] m_def [symmetric])
  with assms(2) u have "(0::rat) < of_int m" by (simp add: zero_less_mult_iff)
  then have "1 \<le> m" by simp
  then have "(1::rat) \<le> of_int m" by simp
  with u have "ulp \<le> of_int m * ulp" by simp
  moreover have "pow2 (- 1074) \<le> ulp" unfolding ulp_def by (rule pow2_mono) simp
  ultimately show ?thesis using d by simp
qed

lemma round_double_of_int:
  assumes "\<bar>z\<bar> \<le> 2 ^ 53"
  shows "round_double (of_int z) = of_int z"
proof -
  have pos: "round_double (of_int n) = of_int n" if "0 < n" and "n \<le> 2 ^ 53" for n :: int
  proof -
    define a :: rat where "a = of_int n"
    define e where "e = ilog2 a"
    from that have a1: "1 \<le> a" and a53: "a \<le> 2 ^ 53" and a0: "0 < a"
      by (simp_all add: a_def)
    from ilog2_bounds [OF a0] have lo: "pow2 e \<le> a" and hi: "a < pow2 (e + 1)"
      by (simp_all add: e_def)
    have e0: "0 \<le> e"
    proof (rule ccontr)
      assume "\<not> 0 \<le> e"
      then have "e + 1 \<le> 0" by simp
      then have "pow2 (e + 1) \<le> pow2 0" by (rule pow2_mono)
      with hi a1 show False by (simp add: pow2_def)
    qed
    have e53: "e \<le> 53"
    proof (rule ccontr)
      assume "\<not> e \<le> 53"
      then have "54 \<le> e" by simp
      then have "pow2 54 \<le> pow2 e" by (rule pow2_mono)
      with lo a53 show False by (simp add: pow2_def)
    qed
    show ?thesis
    proof (cases "e = 53")
      case True
      with lo a53 have "a = 2 ^ 53" by (simp add: pow2_def)
      then have "a = of_int (2 ^ 52) * pow2 1" by (simp add: pow2_def)
      moreover have "max (ilog2 a - 52) (- 1074) = 1"
        using True by (simp add: e_def [symmetric])
      ultimately have "a = of_int (2 ^ 52) * pow2 (max (ilog2 a - 52) (- 1074))"
        by (simp only:)
      with a0 have "round_double a = a" by (rule round_double_exact)
      then show ?thesis by (simp add: a_def)
    next
      case False
      define k where "k = nat (52 - e)"
      from False e53 have k: "e - 52 = - int k" by (simp add: k_def)
      then have "max (e - 52) (- 1074) = - int k" using e0 by simp
      then have "pow2 (max (ilog2 a - 52) (- 1074)) = 1 / 2 ^ k"
        by (simp add: e_def [symmetric] pow2_neg_nat)
      moreover have "a = of_int (n * 2 ^ k) * (1 / 2 ^ k)" by (simp add: a_def)
      ultimately have "a = of_int (n * 2 ^ k) * pow2 (max (ilog2 a - 52) (- 1074))"
        by (simp only:)
      with a0 have "round_double a = a" by (rule round_double_exact)
      then show ?thesis by (simp add: a_def)
    qed
  qed
  consider "z = 0" | "0 < z" | "z < 0" by linarith
  then show ?thesis
  proof cases
    case 1
    then show ?thesis by simp
  next
    case 2
    with assms show ?thesis by (intro pos) simp_all
  next
    case 3
    with assms have "round_double (of_int (- z)) = of_int (- z)" by (intro pos) simp_all
    then show ?thesis by (simp add: round_double_minus)
  qed
qed


lemma ilog2_less:
  assumes "0 < a" and "a < pow2 k"
  shows "ilog2 a < k"
proof (rule ccontr)
  assume "\<not> ilog2 a < k"
  then have "pow2 k \<le> pow2 (ilog2 a)" by (intro pow2_mono) simp
  with ilog2_bounds [OF assms(1)] assms(2) show False by simp
qed

lemma overflows_0 [simp]: "\<not> overflows 0"
  by (simp add: overflows_def)

lemma not_overflows:
  assumes "\<bar>q\<bar> \<le> 2 ^ 53"
  shows "\<not> overflows q"
proof (cases "q = 0")
  case True
  then show ?thesis by (simp add: overflows_def)
next
  case False
  then have pos: "0 < \<bar>q\<bar>" by simp
  have "(2::rat) ^ 53 < pow2 54" by (simp add: pow2_def)
  with assms have "\<bar>q\<bar> < pow2 54" by linarith
  with pos have "ilog2 \<bar>q\<bar> < 54" by (rule ilog2_less)
  then show ?thesis by (simp add: overflows_def)
qed

lemma fl_double: "is_double d \<Longrightarrow> fl d = Finite d"
  by (simp add: is_double_def fl_def Let_def)

lemma is_double_of_int:
  assumes "\<bar>z\<bar> \<le> 2 ^ 53"
  shows "is_double (of_int z)"
proof -
  from assms have "of_int \<bar>z\<bar> \<le> (of_int (2 ^ 53) :: rat)" by (simp only: of_int_le_iff)
  then have "\<bar>of_int z :: rat\<bar> \<le> 2 ^ 53" by simp
  then have "\<not> overflows (of_int z)" by (rule not_overflows)
  with round_double_of_int [OF assms] show ?thesis by (simp add: is_double_def)
qed

lemma fl_of_int: "\<bar>z\<bar> \<le> 2 ^ 53 \<Longrightarrow> fl (of_int z) = Finite (of_int z)"
  by (rule fl_double) (rule is_double_of_int)

lemma is_double_0 [simp]: "is_double 0"
  using is_double_of_int [of 0] by simp

lemma negative_fl: "negative (fl q) \<longleftrightarrow> round_double q < 0"
  by (auto simp: fl_def Let_def overflows_def)

lemma offset_sign:
  assumes "pn < 0" and "is_double ps"
  shows "negative (js_sub (js_mul pn ps) ps) \<longleftrightarrow> 0 < ps"
proof -
  consider "0 < ps" | "ps = 0" | "ps < 0" by linarith
  then show ?thesis
  proof cases
    case 1
    with assms(1) have "pn * ps \<le> 0" by (simp add: mult_le_0_iff)
    then have r: "round_double (pn * ps) \<le> 0" by (rule round_double_nonpos)
    from assms(2) 1 have m: "pow2 (- 1074) \<le> ps" by (rule double_ge_min)
    have "negative (js_sub (js_mul pn ps) ps)"
    proof (cases "js_mul pn ps")
      case (Finite x)
      with r have x: "x \<le> 0" by (auto simp: js_mul_def fl_def Let_def split: if_splits)
      with m have "pow2 (- 1074) \<le> - (x - ps)" by simp
      then have "0 < round_double (- (x - ps))" by (rule round_double_pos)
      then have "round_double (x - ps) < 0" by (simp only: round_double_minus)
      with Finite show ?thesis by (simp add: negative_fl)
    next
      case PosInfinity
      with r show ?thesis
        by (auto simp: js_mul_def fl_def Let_def split: if_splits)
    next
      case NegInfinity
      then show ?thesis by simp
    qed
    with 1 show ?thesis by simp
  next
    case 2
    then have "js_sub (js_mul pn ps) ps = Finite 0"
      by (simp add: js_mul_def fl_def overflows_def)
    with 2 show ?thesis by simp
  next
    case 3
    with assms(1) have "0 \<le> pn * ps" by (simp add: zero_le_mult_iff)
    then have r: "0 \<le> round_double (pn * ps)" by (rule round_double_nonneg)
    have "\<not> negative (js_sub (js_mul pn ps) ps)"
    proof (cases "js_mul pn ps")
      case (Finite x)
      with r have x: "0 \<le> x" by (auto simp: js_mul_def fl_def Let_def split: if_splits)
      with 3 have "0 \<le> x - ps" by simp
      then have "0 \<le> round_double (x - ps)" by (rule round_double_nonneg)
      with Finite show ?thesis by (simp add: negative_fl)
    next
      case PosInfinity
      then show ?thesis by simp
    next
      case NegInfinity
      with r show ?thesis
        by (auto simp: js_mul_def fl_def Let_def split: if_splits)
    qed
    with 3 show ?thesis by simp
  qed
qed

subsection \<open>Small numbers, computed\<close>

lemma fl_numeral: "numeral k \<le> (2 :: int) ^ 53 \<Longrightarrow> fl (numeral k) = Finite (numeral k)"
  using fl_of_int [of "numeral k"] by simp

lemma fl_0 [simp]: "fl 0 = Finite 0"
  using fl_of_int [of 0] by simp

lemma fl_1 [simp]: "fl 1 = Finite 1"
  using fl_of_int [of 1] by simp

lemma round_double_numeral:
  "numeral k \<le> (2 :: int) ^ 53 \<Longrightarrow> round_double (numeral k) = numeral k"
  using round_double_of_int [of "numeral k"] by simp

lemma round_double_1 [simp]: "round_double 1 = 1"
  using round_double_of_int [of 1] by simp

lemma positive_to_string_1: "positive_to_string 1 = ''1''"
  by code_simp

lemma positive_to_string_10: "positive_to_string 10 = ''10''"
  by code_simp

lemma positive_to_string_11: "positive_to_string 11 = ''11''"
  by code_simp

subsection \<open>Integers up to \<open>2^53\<close> print as their decimal digits\<close>

lemma digits_length_bounds:
  "1 \<le> z \<Longrightarrow> 10 ^ (length (digits z) - 1) \<le> z \<and> z < 10 ^ length (digits z)"
proof (induction z rule: digits.induct)
  case (1 n)
  show ?case
  proof (cases "n < 10")
    case True
    then have "digits n = [digit (nat n)]" by (subst digits.simps) simp
    with True "1.prems" show ?thesis by simp
  next
    case False
    then have d: "digits n = digits (n div 10) @ [digit (nat (n mod 10))]"
      by (subst digits.simps) simp
    from False have "1 \<le> n div 10" by presburger
    with "1.IH" False have ih: "10 ^ (length (digits (n div 10)) - 1) \<le> n div 10"
      "n div 10 < 10 ^ length (digits (n div 10))"
      by simp_all
    have pos: "0 < length (digits (n div 10))"
      by (subst digits.simps) simp
    then obtain b where b: "length (digits (n div 10)) = Suc b"
      by (cases "length (digits (n div 10))") auto
    define c :: int where "c = 10 ^ b"
    from ih b have "c \<le> n div 10" "n div 10 < 10 * c" by (simp_all add: c_def)
    moreover have "n = 10 * (n div 10) + n mod 10" by simp
    moreover have "0 \<le> n mod 10" "n mod 10 < 10" by simp_all
    ultimately have "10 * c \<le> n" "n < 10 * (10 * c)" by linarith+
    with d b show ?thesis by (simp add: c_def)
  qed
qed

lemma digits_times_10:
  assumes "1 \<le> s"
  shows "digits (s * 10 ^ m) = digits s @ replicate m CHR ''0''"
proof (induction m)
  case 0
  show ?case by simp
next
  case (Suc m)
  have "(1::int) \<le> 10 ^ m" by simp
  with assms have "1 * 1 \<le> s * 10 ^ m" by (intro mult_mono) simp_all
  then have "\<not> s * 10 ^ Suc m < 10" by simp
  then have "digits (s * 10 ^ Suc m) =
      digits (s * 10 ^ Suc m div 10) @ [digit (nat (s * 10 ^ Suc m mod 10))]"
    by (subst digits.simps) simp
  also have "s * 10 ^ Suc m div 10 = s * 10 ^ m" by simp
  also have "s * 10 ^ Suc m mod 10 = 0" by simp
  finally show ?case
    by (simp add: Suc.IH digit_def replicate_append_same)
qed


lemma round_double_ge_pow2:
  assumes "0 < a" and "- 1074 \<le> ilog2 a - 52"
  shows "pow2 (ilog2 a) \<le> round_double a"
proof -
  define e where "e = ilog2 a"
  define ulp where "ulp = pow2 (e - 52)"
  have u: "0 < ulp" by (simp add: ulp_def)
  have "pow2 e = pow2 (52 + (e - 52))" by simp
  also have "\<dots> = pow2 52 * ulp" unfolding ulp_def by (rule pow2_add)
  also have "pow2 52 = of_int (2 ^ 52)" by (simp add: pow2_def)
  finally have pe: "pow2 e = of_int (2 ^ 52) * ulp" .
  from ilog2_bounds [OF assms(1)] have "pow2 e \<le> a" by (simp add: e_def)
  with pe u have "of_int (2 ^ 52) \<le> a / ulp" by (simp add: field_simps)
  then have "2 ^ 52 \<le> round_half_even (a / ulp)" by (rule rhe_ge)
  then have "(of_int (2 ^ 52) :: rat) \<le> of_int (round_half_even (a / ulp))"
    by (simp only: of_int_le_iff)
  with u have "of_int (2 ^ 52) * ulp \<le> of_int (round_half_even (a / ulp)) * ulp"
    by (simp only: mult_le_cancel_right_pos)
  moreover from assms(2) have "max (ilog2 a - 52) (- 1074) = e - 52" by (simp add: e_def)
  then have "round_double a = of_int (round_half_even (a / ulp)) * ulp"
    using assms(1) by (simp add: round_double_def Let_def ulp_def)
  ultimately show ?thesis using pe by (simp add: e_def)
qed

lemma round_double_ge_2_53:
  assumes "2 ^ 53 \<le> a"
  shows "2 ^ 53 \<le> round_double a"
proof -
  have p: "pow2 53 = 2 ^ 53" by (simp add: pow2_def)
  from assms have pos: "0 < a" by (simp add: less_le_trans [of 0 "2 ^ 53"])
  have e: "53 \<le> ilog2 a"
  proof (rule ccontr)
    assume "\<not> 53 \<le> ilog2 a"
    then have "pow2 (ilog2 a + 1) \<le> pow2 53" by (intro pow2_mono) simp
    with ilog2_bounds [OF pos] assms p show False by simp
  qed
  then have "pow2 53 \<le> pow2 (ilog2 a)" by (rule pow2_mono)
  moreover from e have "pow2 (ilog2 a) \<le> round_double a"
    by (intro round_double_ge_pow2 pos) simp
  ultimately show ?thesis using p by simp
qed

lemma fl_of_int_above:
  assumes "0 \<le> z" and "z < 2 ^ 53" and "z < m"
  shows "fl (of_int m) \<noteq> Finite (of_int z)"
proof (cases "m \<le> 2 ^ 53")
  case True
  with assms have "\<bar>m\<bar> \<le> 2 ^ 53" by simp
  then have "fl (of_int m) = Finite (of_int m)" by (rule fl_of_int)
  with assms(3) show ?thesis by simp
next
  case False
  then have "2 ^ 53 \<le> m" by simp
  then have "(of_int (2 ^ 53) :: rat) \<le> of_int m" by (simp only: of_int_le_iff)
  then have "(2 :: rat) ^ 53 \<le> of_int m" by simp
  then have r: "(2 :: rat) ^ 53 \<le> round_double (of_int m)" by (rule round_double_ge_2_53)
  from assms(2) have "(of_int z :: rat) < of_int (2 ^ 53)" by (simp only: of_int_less_iff)
  then have "(of_int z :: rat) < 2 ^ 53" by simp
  with r have "round_double (of_int m) \<noteq> of_int z" by simp
  then show ?thesis by (simp add: fl_def Let_def)
qed

lemma decimal_exponent_of_int:
  "1 \<le> z \<Longrightarrow> decimal_exponent (of_int z) = int (length (digits z))"
  by (simp add: decimal_exponent_def)

lemma pow10_diff: "k \<le> n \<Longrightarrow> pow10 (int n - int k) = of_int (10 ^ (n - k))"
  by (simp add: pow10_def of_nat_diff [symmetric] del: of_nat_diff)

lemma candidate_of_int:
  assumes "1 \<le> z" and "z < 2 ^ 53" and "1 \<le> k" and "k \<le> length (digits z)"
  shows "candidate (of_int z) k =
     (if 10 ^ (length (digits z) - k) dvd z
      then Some (int (length (digits z)), z div 10 ^ (length (digits z) - k)) else None)"
proof -
  define N where "N = length (digits z)"
  define S :: int where "S = 10 ^ (N - k)"
  define lo where "lo = z div S"
  have S0: "0 < S" by (simp add: S_def)
  have n: "decimal_exponent (of_int z) = int N"
    using assms(1) by (simp add: decimal_exponent_of_int N_def)
  have sc: "pow10 (int N - int k) = of_int S"
    using assms(4) by (simp add: pow10_diff N_def S_def)
  have fl_lo: "\<lfloor>(of_int z :: rat) / of_int S\<rfloor> = lo"
    by (simp only: floor_divide_of_int_eq lo_def)
  have lo0: "0 \<le> lo" using assms(1) S0 by (simp add: lo_def pos_imp_zdiv_nonneg_iff)
  have req: "z = lo * S + z mod S" by (simp add: lo_def)
  have m0: "0 \<le> z mod S" and m1: "z mod S < S" using S0 by simp_all
  from req m0 have le: "lo * S \<le> z" by linarith
  have "lo * S + S = (lo + 1) * S" by (simp add: algebra_simps)
  with req m1 have gt: "z < (lo + 1) * S" by linarith
  from lo0 S0 have "0 \<le> lo * S" by simp
  with le assms(2) have "\<bar>lo * S\<bar> \<le> 2 ^ 53" by simp
  then have f1: "fl (of_int (lo * S)) = Finite (of_int (lo * S))" by (rule fl_of_int)
  from assms(1,2) have "\<bar>z\<bar> \<le> 2 ^ 53" by simp
  then have fz: "fl (of_int z) = Finite (of_int z)" by (rule fl_of_int)
  have dv: "lo * S = z \<longleftrightarrow> S dvd z"
    unfolding lo_def by (metis dvd_div_mult_self dvd_triv_right)
  have "(of_int (lo * S) :: rat) = of_int z \<longleftrightarrow> lo * S = z" by (simp only: of_int_eq_iff)
  with f1 dv have oklo: "fl (of_int lo * of_int S) = Finite (of_int z) \<longleftrightarrow> S dvd z"
    by simp
  from assms(1,2) gt have "fl (of_int ((lo + 1) * S)) \<noteq> Finite (of_int z)"
    by (intro fl_of_int_above) simp_all
  then have okhi: "fl ((of_int lo + 1) * of_int S) \<noteq> Finite (of_int z)" by simp
  from digits_length_bounds [OF assms(1)] have "z < 10 ^ N" by (simp add: N_def)
  also from assms(4) have "(10 :: int) ^ N = 10 ^ k * S"
    by (simp add: S_def N_def power_add [symmetric])
  finally have "lo * S < 10 ^ k * S" using le by linarith
  with S0 have "lo < 10 ^ k" by simp
  then have ne: "lo \<noteq> 10 ^ k" by simp
  show ?thesis
    unfolding candidate_def Let_def n sc fl_lo fz N_def [symmetric] S_def [symmetric]
      lo_def [symmetric]
    using oklo okhi ne by simp
qed

lemma shortest_of_int:
  assumes "1 \<le> z" and "z < 2 ^ 53"
  shows "1 \<le> k \<Longrightarrow> k \<le> length (digits z) \<Longrightarrow> length (digits z) - k < fuel \<Longrightarrow>
     \<exists>k' s. shortest (of_int z) k fuel = (int (length (digits z)), k', s) \<and>
       1 \<le> k' \<and> k' \<le> length (digits z) \<and> s * 10 ^ (length (digits z) - k') = z"
proof (induction fuel arbitrary: k)
  case 0
  then show ?case by simp
next
  case (Suc fuel)
  note c = candidate_of_int [OF assms Suc.prems(1,2)]
  show ?case
  proof (cases "10 ^ (length (digits z) - k) dvd z")
    case True
    with c Suc.prems show ?thesis by simp
  next
    case False
    then have "k \<noteq> length (digits z)" by auto
    with Suc.prems have "1 \<le> Suc k" "Suc k \<le> length (digits z)"
      "length (digits z) - Suc k < fuel"
      by simp_all
    from Suc.IH [OF this] False c show ?thesis by simp
  qed
qed

lemma positive_to_string_of_int:
  assumes "1 \<le> z" and "z < 2 ^ 53"
  shows "positive_to_string (of_int z) = digits z"
proof -
  define N where "N = length (digits z)"
  have "(2 :: int) ^ 53 < 10 ^ 16" by simp
  with digits_length_bounds [OF assms(1)] assms(2) have "(10 :: int) ^ (N - 1) < 10 ^ 16"
    unfolding N_def by linarith
  then have "N - 1 < 16" by (simp only: power_strict_increasing_iff) 
  then have N16: "N \<le> 16" by simp
  have N1: "1 \<le> N" unfolding N_def by (subst digits.simps) simp
  from N16 N1 have "1 \<le> (1::nat)" "1 \<le> N" "N - 1 < 17" by simp_all
  from shortest_of_int [OF assms this [unfolded N_def]]
  obtain k' s where sh: "shortest (of_int z) 1 17 = (int N, k', s)"
    and k: "1 \<le> k'" "k' \<le> N" and s: "s * 10 ^ (N - k') = z"
    unfolding N_def by auto
  from s assms(1) have "0 < s * 10 ^ (N - k')" by simp
  then have "0 < s" by (simp add: zero_less_mult_iff)
  then have "1 \<le> s" by simp
  then have "digits (s * 10 ^ (N - k')) = digits s @ replicate (N - k') CHR ''0''"
    by (rule digits_times_10)
  with s have d: "digits z = digits s @ replicate (N - k') CHR ''0''" by simp
  from k have "nat (int N - int k') = N - k'" by simp
  with sh k N16 d show ?thesis
    by (simp add: positive_to_string_def Let_def)
qed

lemma positive_to_string_2_53: "positive_to_string 9007199254740992 = ''9007199254740992''"
  by code_simp

lemma digits_2_53: "digits 9007199254740992 = ''9007199254740992''"
  by code_simp

lemma number_to_string_of_int:
  assumes "0 \<le> z" and "z \<le> 2 ^ 53"
  shows "number_to_string (Finite (of_int z)) = digits z"
proof -
  consider "z = 0" | "z = 9007199254740992" | "1 \<le> z" "z < 2 ^ 53"
    using assms by fastforce
  then show ?thesis
  proof cases
    case 1
    have "digits 0 = ''0''" by (subst digits.simps) (simp add: digit_def)
    with 1 show ?thesis by simp
  next
    case 2
    then show ?thesis by (simp add: positive_to_string_2_53 digits_2_53)
  next
    case 3
    from positive_to_string_of_int [OF 3] 3(1) show ?thesis by simp
  qed
qed

lemma digits_10: "digits 10 = ''10''"
  by code_simp

lemma digits_11: "digits 11 = ''11''"
  by code_simp

subsection \<open>Awaiting\<close>

lemma await_Inl [simp]: "await (Inl e, s) k = (Inl e, s)"
  by (simp add: await_def)

lemma await_Inr [simp]: "await (Inr v, s) k = k v s"
  by (simp add: await_def)

lemma await_snd:
  assumes "P (snd m)" and "\<And>v s'. P s' \<Longrightarrow> P (snd (k v s'))"
  shows "P (snd (await m k))"
proof (cases m)
  case (Pair r s)
  with assms show ?thesis by (cases r) auto
qed

subsection \<open>One execution\<close>

lemma executeQuery_fail:
  assumes "fst (sel (db w) (generatePaginationSqlSnippet p) (sqlParamsProp p)) = Inl e"
  shows "executeQuery sel (p, w) =
           (Inl e, (p, w\<lparr> db := snd (sel (db w) (generatePaginationSqlSnippet p) (sqlParamsProp p)),
                          executed := executed w @
                            [(generatePaginationSqlSnippet p, sqlParamsProp p)] \<rparr>))"
  using assms by (auto simp: executeQuery_def db_select_def split: prod.splits)

lemma executeQuery_ok:
  assumes "fst (sel (db w) (generatePaginationSqlSnippet p) (sqlParamsProp p)) = Inr rows"
  shows "executeQuery sel (p, w) =
           (Inr (Arr (if perPage p < of_nat (length rows) then butlast rows else rows)),
            (p\<lparr> hasNext := perPage p < of_nat (length rows),
                response := (if perPage p < of_nat (length rows) then butlast rows else rows) \<rparr>,
             w\<lparr> db := snd (sel (db w) (generatePaginationSqlSnippet p) (sqlParamsProp p)),
                executed := executed w @
                  [(generatePaginationSqlSnippet p, sqlParamsProp p)] \<rparr>))"
  using assms
  by (auto simp: executeQuery_def db_select_def Let_def perPage_def split: prod.splits)

subsection \<open>A populated cache is reused\<close>

lemma count_cached:
  "response p \<noteq> [] \<Longrightarrow> count sel (p, w) = (Inr (Num (of_nat (length (response p)))), (p, w))"
  by (simp add: count_def)

lemma nextPage_cached:
  "response p \<noteq> [] \<Longrightarrow>
   nextPage sel (p, w) =
     (Inr (if hasNext p then Num (round_double (currentPage p + 1)) else Bool False), (p, w))"
  by (simp add: nextPage_def)

lemma items_cached:
  "response p \<noteq> [] \<Longrightarrow> items sel (p, w) = (Inr (Arr (response p)), (p, w))"
  by (simp add: items_def)

lemma call_cached:
  "response p \<noteq> [] \<Longrightarrow> snd (call sel a (p, w)) = (p, w) \<and> isl (fst (call sel a (p, w))) = False"
  by (cases a)
     (simp_all add: count_def nextPage_def firstItem_def lastItem_def items_def toObject_def)

lemma snd_calls_Cons:
  "snd (calls sel (a # as) s) = snd (calls sel as (snd (call sel a s)))"
  by (simp split: prod.splits)

lemma calls_cached:
  "response p \<noteq> [] \<Longrightarrow> snd (calls sel as (p, w)) = (p, w)"
proof (induction as)
  case Nil
  then show ?case by simp
next
  case (Cons a as)
  from Cons.prems have "snd (call sel a (p, w)) = (p, w)" by (simp add: call_cached)
  with Cons show ?case by (simp only: snd_calls_Cons) simp
qed

subsection \<open>The configuration is never assigned\<close>

lemma executeQuery_config: "config (fst (snd (executeQuery sel s))) = config (fst s)"
  by (cases s)
     (auto simp: executeQuery_def db_select_def Let_def config_def split: prod.splits sum.splits)

lemma count_config: "config (fst (snd (count sel s))) = config (fst s)"
  unfolding count_def
  by (rule await_snd [where P = "\<lambda>s'. config (fst s') = config (fst s)"])
     (simp_all add: executeQuery_config)

lemma nextPage_config: "config (fst (snd (nextPage sel s))) = config (fst s)"
  unfolding nextPage_def
  by (rule await_snd [where P = "\<lambda>s'. config (fst s') = config (fst s)"])
     (simp_all add: executeQuery_config)

lemma firstItem_config: "config (fst (snd (firstItem sel s))) = config (fst s)"
  unfolding firstItem_def
  by (rule await_snd [where P = "\<lambda>s'. config (fst s') = config (fst s)"])
     (simp_all add: executeQuery_config)

lemma lastItem_config: "config (fst (snd (lastItem sel s))) = config (fst s)"
  unfolding lastItem_def
  by (rule await_snd [where P = "\<lambda>s'. config (fst s') = config (fst s)"])
     (simp_all add: executeQuery_config)

lemma items_config: "config (fst (snd (items sel s))) = config (fst s)"
  unfolding items_def
  by (rule await_snd [where P = "\<lambda>s'. config (fst s') = config (fst s)"])
     (simp_all add: executeQuery_config)

lemma toObject_config: "config (fst (snd (toObject sel s))) = config (fst s)"
  unfolding toObject_def
  apply (rule await_snd [where P = "\<lambda>s'. config (fst s') = config (fst s)"])
   apply (simp add: executeQuery_config)
  apply (rule await_snd [where P = "\<lambda>s'. config (fst s') = config (fst s)"])
   apply (simp add: count_config)
  apply (rule await_snd [where P = "\<lambda>s'. config (fst s') = config (fst s)"])
   apply (simp add: nextPage_config)
  apply (rule await_snd [where P = "\<lambda>s'. config (fst s') = config (fst s)"])
   apply (simp add: items_config)
  apply simp
  done

lemma call_config: "config (fst (snd (call sel a s))) = config (fst s)"
  by (cases a)
     (simp_all add: count_config nextPage_config firstItem_config lastItem_config
        items_config toObject_config)

lemma config_previousPage: "config p' = config p \<Longrightarrow> previousPage p' = previousPage p"
  by (simp add: config_def previousPage_def currentPage_def)

lemma config_snippet:
  "config p' = config p \<Longrightarrow> generatePaginationSqlSnippet p' = generatePaginationSqlSnippet p"
  by (simp add: config_def generatePaginationSqlSnippet_def
      getLimitAndOffsetByPageAndContentPerPage_def currentPage_def perPage_def)

subsection \<open>The first fetch of an accessor\<close>

lemma executeQuery_result:
  assumes "executeQuery sel (p, w) = (Inr v, s1)"
  shows "v = Arr (response (fst s1)) \<and>
         executed (snd s1) = executed w @ [(generatePaginationSqlSnippet p, sqlParamsProp p)]"
  using assms
  by (auto simp: executeQuery_def db_select_def Let_def split: prod.splits sum.splits if_splits)

lemma executeQuery_executed:
  "executed (snd (snd (executeQuery sel (p, w)))) =
     executed w @ [(generatePaginationSqlSnippet p, sqlParamsProp p)]"
  by (simp add: executeQuery_def db_select_def Let_def split: prod.splits sum.splits)

lemma call_after_fetch:
  assumes "response p = []" and "executeQuery sel (p, w) = (Inr v, s1)"
    and "response (fst s1) \<noteq> []"
  shows "snd (call sel a (p, w)) = s1"
proof -
  obtain p1 w1 where s1: "s1 = (p1, w1)" by (cases s1)
  with assms(3) have ne: "response p1 \<noteq> []" by simp
  from assms(1,2) ne show ?thesis unfolding s1
    by (cases a)
       (simp_all add: count_def nextPage_def firstItem_def lastItem_def items_def toObject_def)
qed

lemma call_fetch_fails:
  assumes "response p = []"
    and "fst (sel (db w) (generatePaginationSqlSnippet p) (sqlParamsProp p)) = Inl e"
  shows "call sel a (p, w) =
           (Inl e, (p, w\<lparr> db := snd (sel (db w) (generatePaginationSqlSnippet p) (sqlParamsProp p)),
                          executed := executed w @
                            [(generatePaginationSqlSnippet p, sqlParamsProp p)] \<rparr>))"
proof -
  from assms(2) have "executeQuery sel (p, w) =
           (Inl e, (p, w\<lparr> db := snd (sel (db w) (generatePaginationSqlSnippet p) (sqlParamsProp p)),
                          executed := executed w @
                            [(generatePaginationSqlSnippet p, sqlParamsProp p)] \<rparr>))"
    by (rule executeQuery_fail)
  with assms(1) show ?thesis
    by (cases a)
       (simp_all add: count_def nextPage_def firstItem_def lastItem_def items_def toObject_def)
qed

subsection \<open>The log of executions grows\<close>

lemma executeQuery_grows:
  "\<exists>rest. executed (snd (snd (executeQuery sel s))) = executed (snd s) @ rest"
  by (cases s) (simp add: executeQuery_executed)

lemma grows_trans:
  assumes "\<exists>rest. executed (snd s1) = executed (snd s0) @ rest"
    and "\<exists>rest. executed (snd s2) = executed (snd s1) @ rest"
  shows "\<exists>rest. executed (snd s2) = executed (snd s0) @ rest"
  using assms by auto

lemma count_grows: "\<exists>rest. executed (snd (snd (count sel s))) = executed (snd s) @ rest"
  unfolding count_def
  by (rule await_snd [where P = "\<lambda>s'. \<exists>rest. executed (snd s') = executed (snd s) @ rest"])
     (simp_all add: executeQuery_grows)

lemma nextPage_grows: "\<exists>rest. executed (snd (snd (nextPage sel s))) = executed (snd s) @ rest"
  unfolding nextPage_def
  by (rule await_snd [where P = "\<lambda>s'. \<exists>rest. executed (snd s') = executed (snd s) @ rest"])
     (simp_all add: executeQuery_grows)

lemma items_grows: "\<exists>rest. executed (snd (snd (items sel s))) = executed (snd s) @ rest"
  unfolding items_def
  by (rule await_snd [where P = "\<lambda>s'. \<exists>rest. executed (snd s') = executed (snd s) @ rest"])
     (simp_all add: executeQuery_grows)

lemma toObject_tail_grows:
  "\<exists>rest. executed (snd (snd (
      await (count sel s1)
         (\<lambda>c s2. await (nextPage sel s2)
           (\<lambda>n s3. await (items sel s3)
             (\<lambda>it s4. (Inr (f c n it s2 s3), s4))))))) = executed (snd s1) @ rest"
  apply (rule await_snd [where P = "\<lambda>s'. \<exists>rest. executed (snd s') = executed (snd s1) @ rest"])
   apply (rule count_grows)
  apply (rule await_snd [where P = "\<lambda>s'. \<exists>rest. executed (snd s') = executed (snd s1) @ rest"])
   apply (erule grows_trans, rule nextPage_grows)
  apply (rule await_snd [where P = "\<lambda>s'. \<exists>rest. executed (snd s') = executed (snd s1) @ rest"])
   apply (erule grows_trans, rule items_grows)
  apply simp
  done

lemma await_first:
  assumes "\<exists>rest. executed (snd (snd m)) = base @ x # rest"
    and "\<And>v s'. \<exists>rest. executed (snd (snd (k v s'))) = executed (snd s') @ rest"
  shows "\<exists>rest. executed (snd (snd (await m k))) = base @ x # rest"
proof -
  obtain r s where Pair: "m = (r, s)" by (cases m) auto
  show ?thesis
  proof (cases r)
    case (Inl e)
    with Pair assms(1) show ?thesis by simp
  next
    case (Inr v)
    from assms(1) Pair obtain r1 where r1: "executed (snd s) = base @ x # r1" by auto
    from assms(2) [of v s] obtain r2
      where "executed (snd (snd (k v s))) = executed (snd s) @ r2" by auto
    with r1 have "executed (snd (snd (k v s))) = base @ x # (r1 @ r2)" by simp
    with Pair Inr show ?thesis by auto
  qed
qed

lemma call_unfetched_first:
  assumes "response p = []"
  shows "\<exists>rest. executed (snd (snd (call sel a (p, w)))) =
           executed w @ (generatePaginationSqlSnippet p, sqlParamsProp p) # rest"
proof -
  have m: "\<exists>rest. executed (snd (snd
      (if length (response (fst (p, w))) \<le> 0 then executeQuery sel (p, w)
       else (Inr Undefined, (p, w))))) =
      executed w @ (generatePaginationSqlSnippet p, sqlParamsProp p) # rest"
    using assms by (simp add: executeQuery_executed)
  show ?thesis
  proof (cases a)
    case Count
    show ?thesis unfolding Count call.simps count_def
      by (rule await_first [OF m]) simp
  next
    case NextPage
    show ?thesis unfolding NextPage call.simps nextPage_def
      by (rule await_first [OF m]) simp
  next
    case FirstItem
    show ?thesis unfolding FirstItem call.simps firstItem_def
      by (rule await_first [OF m]) simp
  next
    case LastItem
    show ?thesis unfolding LastItem call.simps lastItem_def
      by (rule await_first [OF m]) simp
  next
    case Items
    show ?thesis unfolding Items call.simps items_def
      by (rule await_first [OF m]) simp
  next
    case ToObject
    show ?thesis unfolding ToObject call.simps toObject_def
      by (rule await_first [OF m]) (rule toObject_tail_grows)
  qed
qed

subsection \<open>The bound on the cache is kept\<close>

lemma config_perPage: "config p' = config p \<Longrightarrow> perPage p' = perPage p"
  by (simp add: config_def perPage_def)

lemma config_currentPage: "config p' = config p \<Longrightarrow> currentPage p' = currentPage p"
  by (simp add: config_def currentPage_def)

lemma config_params: "config p' = config p \<Longrightarrow> sqlParamsProp p' = sqlParamsProp p"
  by (simp add: config_def)

lemma executeQuery_bounded:
  assumes lim: "\<And>d rows. fst (sel d (generatePaginationSqlSnippet p) (sqlParamsProp p)) = Inr rows
            \<Longrightarrow> of_nat (length rows) \<le> perPage p + 1"
    and b: "page_bounded p s"
  shows "page_bounded p (snd (executeQuery sel s))"
proof -
  obtain p' w' where s: "s = (p', w')" by (cases s)
  from b s have c: "config p' = config p"
    and len: "of_nat (length (response p')) \<le> perPage p"
    by (simp_all add: page_bounded_def)
  from len have nonneg: "0 \<le> perPage p"
    by (rule order_trans [rotated]) simp
  note q = config_snippet [OF c] config_params [OF c] config_perPage [OF c]
  show ?thesis
  proof (cases "fst (sel (db w') (generatePaginationSqlSnippet p') (sqlParamsProp p'))")
    case (Inl e)
    then have "snd (executeQuery sel (p', w')) =
        (p', w'\<lparr> db := snd (sel (db w') (generatePaginationSqlSnippet p') (sqlParamsProp p')),
                 executed := executed w' @
                   [(generatePaginationSqlSnippet p', sqlParamsProp p')] \<rparr>)"
      by (simp add: executeQuery_fail)
    with c len s show ?thesis by (simp add: page_bounded_def)
  next
    case (Inr rows)
    with lim [of "db w'" rows] q have le: "of_nat (length rows) \<le> perPage p + 1" by simp
    have "of_nat (length (if perPage p < of_nat (length rows) then butlast rows else rows))
            \<le> perPage p"
    proof (cases "perPage p < of_nat (length rows)")
      case True
      with nonneg have "Suc 0 \<le> length rows" by (cases rows) auto
      then have "(of_nat (length rows - Suc 0) :: rat) = of_nat (length rows) - of_nat (Suc 0)"
        by (rule of_nat_diff)
      then have "(of_nat (length (butlast rows)) :: rat) = of_nat (length rows) - 1"
        by simp
      with le True show ?thesis by simp
    next
      case False
      then show ?thesis by simp
    qed
    moreover from Inr have "snd (executeQuery sel (p', w')) =
       (p'\<lparr> hasNext := perPage p' < of_nat (length rows),
           response := (if perPage p' < of_nat (length rows) then butlast rows else rows) \<rparr>,
        w'\<lparr> db := snd (sel (db w') (generatePaginationSqlSnippet p') (sqlParamsProp p')),
            executed := executed w' @
              [(generatePaginationSqlSnippet p', sqlParamsProp p')] \<rparr>)"
      by (simp add: executeQuery_ok)
    ultimately show ?thesis using c q(3) s
      by (simp add: page_bounded_def config_def)
  qed
qed

lemma call_bounded:
  assumes lim: "\<And>d rows. fst (sel d (generatePaginationSqlSnippet p) (sqlParamsProp p)) = Inr rows
            \<Longrightarrow> of_nat (length rows) \<le> perPage p + 1"
    and b: "page_bounded p s"
  shows "page_bounded p (snd (call sel a s))"
proof -
  have ex: "page_bounded p (snd (executeQuery sel s'))" if "page_bounded p s'" for s'
    using lim that by (rule executeQuery_bounded)
  have fetch: "page_bounded p (snd (if length (response (fst s')) \<le> 0
      then executeQuery sel s' else (Inr Undefined, s')))" if "page_bounded p s'" for s'
  proof (cases "length (response (fst s')) \<le> 0")
    case True
    with ex [OF that] show ?thesis by simp
  next
    case False
    with that show ?thesis by simp
  qed
  have cnt: "page_bounded p (snd (count sel s'))" if "page_bounded p s'" for s'
    unfolding count_def by (rule await_snd [where P = "page_bounded p"], rule fetch [OF that], simp)
  have nxt: "page_bounded p (snd (nextPage sel s'))" if "page_bounded p s'" for s'
    unfolding nextPage_def by (rule await_snd [where P = "page_bounded p"], rule fetch [OF that], simp)
  have fst': "page_bounded p (snd (firstItem sel s'))" if "page_bounded p s'" for s'
    unfolding firstItem_def by (rule await_snd [where P = "page_bounded p"], rule fetch [OF that], simp)
  have lst: "page_bounded p (snd (lastItem sel s'))" if "page_bounded p s'" for s'
    unfolding lastItem_def by (rule await_snd [where P = "page_bounded p"], rule fetch [OF that], simp)
  have its: "page_bounded p (snd (items sel s'))" if "page_bounded p s'" for s'
    unfolding items_def by (rule await_snd [where P = "page_bounded p"], rule fetch [OF that], simp)
  have obj: "page_bounded p (snd (toObject sel s'))" if "page_bounded p s'" for s'
    unfolding toObject_def
    apply (rule await_snd [where P = "page_bounded p"])
     apply (rule fetch [OF that])
    apply (rule await_snd [where P = "page_bounded p"])
     apply (erule cnt)
    apply (rule await_snd [where P = "page_bounded p"])
     apply (erule nxt)
    apply (rule await_snd [where P = "page_bounded p"])
     apply (erule its)
    apply simp
    done
  from b show ?thesis
    by (cases a) (simp_all add: cnt nxt fst' lst its obj)
qed

lemma calls_bounded:
  assumes lim: "\<And>d rows. fst (sel d (generatePaginationSqlSnippet p) (sqlParamsProp p)) = Inr rows
            \<Longrightarrow> of_nat (length rows) \<le> perPage p + 1"
    and b: "page_bounded p s"
  shows "page_bounded p (snd (calls sel as s))"
  using b
proof (induction as arbitrary: s)
  case Nil
  then show ?case by simp
next
  case (Cons a as)
  from lim Cons.prems have "page_bounded p (snd (call sel a s))" by (rule call_bounded)
  then have "page_bounded p (snd (calls sel as (snd (call sel a s))))" by (rule Cons.IH)
  then show ?case by (simp only: snd_calls_Cons)
qed

subsection \<open>The summary, step by step\<close>

lemma await_InrE:
  assumes "await m k = (Inr v, s')"
  obtains x s1 where "m = (Inr x, s1)" and "k x s1 = (Inr v, s')"
proof -
  obtain r s1 where m: "m = (r, s1)" by (cases m)
  with assms show ?thesis by (cases r) (auto intro: that)
qed

subsection \<open>Page two, fetched\<close>

lemma window_page_two:
  "getLimitAndOffsetByPageAndContentPerPage page_two = \<lparr> offset = Finite 10, limit = 10 \<rparr>"
  by (simp add: getLimitAndOffsetByPageAndContentPerPage_def perPage_def currentPage_def
      page_two_def js_mul_def fl_numeral)

lemma snippet_page_two:
  "generatePaginationSqlSnippet page_two = ''SELECT id FROM t LIMIT 11 OFFSET 10''"
  by (simp add: generatePaginationSqlSnippet_def window_page_two js_add_def fl_numeral
      positive_to_string_10 positive_to_string_11)
     (simp add: page_two_def)

lemma executeQuery_page_two:
  "executeQuery (source_rows 11) (page_two, world0 ()) = (Inr (Arr (map row [0..<10])), fetched11)"
proof -
  have t: "butlast (map row [0..<11]) = map row [0..<10]"
    by (simp add: butlast_conv_take take_map)
  have "perPage page_two = 10" "sqlParamsProp page_two = Arr []"
    by (simp_all add: perPage_def page_two_def)
  then show ?thesis
    by (simp add: executeQuery_ok [where rows = "map row [0..<11]"] source_rows_def
        snippet_page_two t fetched11_def world0_def)
qed

subsection \<open>Errors come from the data source\<close>

lemma await_same:
  fixes m :: "('e + 'a) \<times> 's"
  assumes "E m" and "\<And>v s1. m = (Inr v, s1) \<Longrightarrow> E (k v s1)"
  shows "E (await m k)"
proof -
  obtain r s where m: "m = (r, s)" by (cases m)
  with assms show ?thesis by (cases r) auto
qed

lemma fetch_error:
  assumes c: "config (fst s) = config p"
    and e: "fst (if length (response (fst s)) \<le> 0 then executeQuery sel s
                 else (Inr Undefined, s)) = Inl e"
  shows "response (fst (snd (if length (response (fst s)) \<le> 0 then executeQuery sel s
                 else (Inr Undefined, s)))) = [] \<and>
         (\<exists>d. fst (sel d (generatePaginationSqlSnippet p) (sqlParamsProp p)) = Inl e)"
proof -
  obtain p' w' where s: "s = (p', w')" by (cases s)
  from c s have c': "config p' = config p" by simp
  note q = config_snippet [OF c'] config_params [OF c']
  from e s have emp: "response p' = []" by (auto split: if_splits)
  show ?thesis
  proof (cases "fst (sel (db w') (generatePaginationSqlSnippet p') (sqlParamsProp p'))")
    case (Inl e')
    from executeQuery_fail [where sel = sel and w = w' and p = p' and e = e', OF Inl] e s emp have "e' = e" by simp
    with Inl q have "fst (sel (db w') (generatePaginationSqlSnippet p) (sqlParamsProp p)) = Inl e"
      by simp
    moreover from executeQuery_fail [where sel = sel and w = w' and p = p' and e = e', OF Inl] s emp
    have "response (fst (snd (if length (response (fst s)) \<le> 0 then executeQuery sel s
                 else (Inr Undefined, s)))) = []"
      by simp
    ultimately show ?thesis by blast
  next
    case (Inr rows)
    from executeQuery_ok [where sel = sel and w = w' and p = p' and rows = rows, OF Inr] e s emp show ?thesis by simp
  qed
qed

lemma fetch_fails_with:
  "config (fst s) = config p \<Longrightarrow>
   fails_with sel p (if length (response (fst s)) \<le> 0 then executeQuery sel s
                     else (Inr Undefined, s))"
  unfolding fails_with_def
proof (intro allI impI)
  fix e
  assume "config (fst s) = config p"
    and "fst (if length (response (fst s)) \<le> 0 then executeQuery sel s
              else (Inr Undefined, s)) = Inl e"
  then show "response (fst (snd (if length (response (fst s)) \<le> 0 then executeQuery sel s
                 else (Inr Undefined, s)))) = [] \<and>
         (\<exists>d. fst (sel d (generatePaginationSqlSnippet p) (sqlParamsProp p)) = Inl e)"
    by (rule fetch_error)
qed

lemma fails_with_Inr [simp]: "fails_with sel p (Inr v, s)"
  by (simp add: fails_with_def)

lemma count_fails_with: "config (fst s) = config p \<Longrightarrow> fails_with sel p (count sel s)"
  unfolding count_def by (rule await_same [where E = "fails_with sel p"], erule fetch_fails_with, simp)

lemma nextPage_fails_with: "config (fst s) = config p \<Longrightarrow> fails_with sel p (nextPage sel s)"
  unfolding nextPage_def by (rule await_same [where E = "fails_with sel p"], erule fetch_fails_with, simp)

lemma firstItem_fails_with: "config (fst s) = config p \<Longrightarrow> fails_with sel p (firstItem sel s)"
  unfolding firstItem_def by (rule await_same [where E = "fails_with sel p"], erule fetch_fails_with, simp)

lemma lastItem_fails_with: "config (fst s) = config p \<Longrightarrow> fails_with sel p (lastItem sel s)"
  unfolding lastItem_def by (rule await_same [where E = "fails_with sel p"], erule fetch_fails_with, simp)

lemma items_fails_with: "config (fst s) = config p \<Longrightarrow> fails_with sel p (items sel s)"
  unfolding items_def by (rule await_same [where E = "fails_with sel p"], erule fetch_fails_with, simp)

lemma fetch_config:
  "(if length (response (fst s)) \<le> 0 then executeQuery sel s else (Inr Undefined, s)) = (r, s1)
   \<Longrightarrow> config (fst s1) = config (fst s)"
proof (cases "length (response (fst s)) \<le> 0")
  case True
  assume "(if length (response (fst s)) \<le> 0 then executeQuery sel s else (Inr Undefined, s)) =
    (r, s1)"
  with True have "snd (executeQuery sel s) = s1" by simp
  with executeQuery_config [of sel s] show ?thesis by simp
next
  case False
  assume "(if length (response (fst s)) \<le> 0 then executeQuery sel s else (Inr Undefined, s)) =
    (r, s1)"
  with False show ?thesis by simp
qed

lemma toObject_fails_with:
  assumes c: "config (fst s) = config p"
  shows "fails_with sel p (toObject sel s)"
  unfolding toObject_def
proof (rule await_same [where E = "fails_with sel p"], rule fetch_fails_with [OF c])
  fix v0 s1
  assume "(if length (response (fst s)) \<le> 0 then executeQuery sel s else (Inr Undefined, s)) =
            (Inr v0, s1)"
  then have "config (fst s1) = config (fst s)" by (rule fetch_config)
  with c have c1: "config (fst s1) = config p" by simp
  show "fails_with sel p (await (count sel s1)
         (\<lambda>c s2. await (nextPage sel s2)
           (\<lambda>n s3. await (items sel s3)
             (\<lambda>it s4. (Inr (Obj [(''count'', c),
                                  (''previous_page'', previousPage (fst s2)),
                                  (''current_page'', Num (currentPage (fst s2))),
                                  (''next_page'', n),
                                  (''per_page'', Num (perPage (fst s3))),
                                  (''items'', it)]), s4)))))"
  proof (rule await_same [where E = "fails_with sel p"], rule count_fails_with [OF c1])
    fix cv s2
    assume "count sel s1 = (Inr cv, s2)"
    with count_config [of sel s1] c1 have c2: "config (fst s2) = config p" by simp
    show "fails_with sel p (await (nextPage sel s2)
           (\<lambda>n s3. await (items sel s3)
             (\<lambda>it s4. (Inr (Obj [(''count'', cv),
                                  (''previous_page'', previousPage (fst s2)),
                                  (''current_page'', Num (currentPage (fst s2))),
                                  (''next_page'', n),
                                  (''per_page'', Num (perPage (fst s3))),
                                  (''items'', it)]), s4))))"
    proof (rule await_same [where E = "fails_with sel p"], rule nextPage_fails_with [OF c2])
      fix n s3
      assume "nextPage sel s2 = (Inr n, s3)"
      with nextPage_config [of sel s2] c2 have c3: "config (fst s3) = config p" by simp
      show "fails_with sel p (await (items sel s3)
             (\<lambda>it s4. (Inr (Obj [(''count'', cv),
                                  (''previous_page'', previousPage (fst s2)),
                                  (''current_page'', Num (currentPage (fst s2))),
                                  (''next_page'', n),
                                  (''per_page'', Num (perPage (fst s3))),
                                  (''items'', it)]), s4)))"
        by (rule await_same [where E = "fails_with sel p"], rule items_fails_with [OF c3]) simp
    qed
  qed
qed

lemma call_fails_with: "fails_with sel p (call sel a (p, w))"
  by (cases a)
     (simp_all add: count_fails_with nextPage_fails_with firstItem_fails_with
        lastItem_fails_with items_fails_with toObject_fails_with)

subsection \<open>Page two, with thirteen rows\<close>

lemma executeQuery_13:
  "executeQuery (source_rows 13) (page_two, world0 ()) =
     (Inr (Arr (map row [0..<12])),
      (page_two\<lparr> hasNext := True, response := map row [0..<12] \<rparr>,
       \<lparr> db = (), executed = [(''SELECT id FROM t LIMIT 11 OFFSET 10'', Arr [])] \<rparr>))"
proof -
  have t: "butlast (map row [0..<13]) = map row [0..<12]"
    by (simp add: butlast_conv_take take_map)
  have "perPage page_two = 10" "sqlParamsProp page_two = Arr []"
    by (simp_all add: perPage_def page_two_def)
  then show ?thesis
    by (simp add: executeQuery_ok [where rows = "map row [0..<13]"] source_rows_def
        snippet_page_two t world0_def)
qed

section \<open>The page window\<close>

text \<open>
  C1, as amended. An instance constructed with an integer page number of at least 1 and
  an integer page size above 0 whose product is below \<open>2^53\<close> computes the offset
  \<open>(pageNumber - 1) * pageSize\<close> and the limit \<open>pageSize\<close>; the text it builds is the base
  query followed by \<open>LIMIT\<close>, the decimal digits of \<open>pageSize + 1\<close>, \<open>OFFSET\<close> and the
  decimal digits of the offset, and an execution sends exactly this text, with the bind
  parameters, to the data source.
\<close>

theorem window_of_page:
  fixes pageNumber pageSize :: int
  assumes "1 \<le> pageNumber" and "0 < pageSize" and "pageNumber * pageSize < 2 ^ 53"
  shows "\<exists>p. constructor sql params (Num (of_int pageSize)) (Num (of_int pageNumber)) = Inr p \<and>
           getLimitAndOffsetByPageAndContentPerPage p =
             \<lparr> offset = Finite (of_int ((pageNumber - 1) * pageSize)),
               limit = of_int pageSize \<rparr> \<and>
           generatePaginationSqlSnippet p =
             sql @ '' LIMIT '' @ digits (pageSize + 1) @
               '' OFFSET '' @ digits ((pageNumber - 1) * pageSize) \<and>
           (\<forall>(sel :: ('d, 'e) select) (w :: 'd world).
              executed (snd (snd (executeQuery sel (p, w)))) =
              executed w @
                [(sql @ '' LIMIT '' @ digits (pageSize + 1) @
                  '' OFFSET '' @ digits ((pageNumber - 1) * pageSize),
                  params)])"
proof -
  define p where "p = \<lparr> sqlProp = sql, sqlParamsProp = params, perPageProp = of_int pageSize,
           currentPageProp = of_int pageNumber, hasNext = False, response = [] \<rparr>"
  from assms(1) have nz: "(of_int pageNumber :: rat) \<noteq> 0" by simp
  then have c: "constructor sql params (Num (of_int pageSize)) (Num (of_int pageNumber)) = Inr p"
    by (simp add: constructor_Num p_def)
  from assms(1,2) have le: "pageSize \<le> pageNumber * pageSize"
    by (simp add: mult_le_cancel_right1)
  from assms(1,2) have nn: "0 \<le> pageNumber * pageSize" by simp
  have p53: "(2 :: int) ^ 53 = 9007199254740992" by simp
  from nn assms(3) have b1: "\<bar>pageNumber * pageSize\<bar> \<le> 2 ^ 53"
    unfolding p53 by linarith
  from le assms(2,3) have b2: "\<bar>pageNumber * pageSize - pageSize\<bar> \<le> 2 ^ 53"
    unfolding p53 by linarith
  from le assms(2,3) have b3: "\<bar>pageSize + 1\<bar> \<le> 2 ^ 53"
    unfolding p53 by linarith
  have sub: "pageNumber * pageSize - pageSize = (pageNumber - 1) * pageSize"
    by (simp add: algebra_simps)
  from le assms(2,3) have r1: "0 \<le> pageSize + 1" "pageSize + 1 \<le> 2 ^ 53"
    unfolding p53 by linarith+
  from le assms(2,3) have "0 \<le> pageNumber * pageSize - pageSize"
    "pageNumber * pageSize - pageSize \<le> 2 ^ 53"
    unfolding p53 by linarith+
  then have r2: "0 \<le> (pageNumber - 1) * pageSize" "(pageNumber - 1) * pageSize \<le> 2 ^ 53"
    by (simp_all only: sub)
  have "js_mul (of_int pageNumber) (of_int pageSize) = fl (of_int (pageNumber * pageSize))"
    by (simp add: js_mul_def)
  also from b1 have "\<dots> = Finite (of_int (pageNumber * pageSize))" by (rule fl_of_int)
  finally have m: "js_mul (of_int pageNumber) (of_int pageSize) =
      Finite (of_int (pageNumber * pageSize))" .
  have "fl (of_int (pageNumber * pageSize) - of_int pageSize) =
      fl (of_int (pageNumber * pageSize - pageSize))"
    by simp
  also from b2 have "\<dots> = Finite (of_int (pageNumber * pageSize - pageSize))"
    by (rule fl_of_int)
  finally have o: "fl (of_int (pageNumber * pageSize) - of_int pageSize) =
      Finite (of_int ((pageNumber - 1) * pageSize))"
    unfolding sub .
  have "js_add (of_int pageSize) 1 = fl (of_int (pageSize + 1))"
    by (simp add: js_add_def)
  also from b3 have "\<dots> = Finite (of_int (pageSize + 1))" by (rule fl_of_int)
  finally have l: "js_add (of_int pageSize) 1 = Finite (of_int (pageSize + 1))" .
  have v: "getLimitAndOffsetByPageAndContentPerPage p =
           \<lparr> offset = Finite (of_int ((pageNumber - 1) * pageSize)), limit = of_int pageSize \<rparr>"
    by (simp add: p_def getLimitAndOffsetByPageAndContentPerPage_def currentPage_def perPage_def
        m o del: of_int_mult of_int_diff of_int_add)
  have t1: "number_to_string (Finite (of_int (pageSize + 1))) = digits (pageSize + 1)"
    using r1 by (rule number_to_string_of_int)
  have t2: "number_to_string (Finite (of_int ((pageNumber - 1) * pageSize))) =
      digits ((pageNumber - 1) * pageSize)"
    using r2 by (rule number_to_string_of_int)
  have "generatePaginationSqlSnippet p =
           sql @ '' LIMIT '' @ number_to_string (Finite (of_int (pageSize + 1))) @
             '' OFFSET '' @ number_to_string (Finite (of_int ((pageNumber - 1) * pageSize)))"
    unfolding generatePaginationSqlSnippet_def v
    by (simp add: p_def l del: of_int_mult of_int_diff of_int_add)
  then have q: "generatePaginationSqlSnippet p =
           sql @ '' LIMIT '' @ digits (pageSize + 1) @
             '' OFFSET '' @ digits ((pageNumber - 1) * pageSize)"
    unfolding t1 t2 .
  have e: "executed (snd (snd (executeQuery sel (p, w)))) =
             executed w @ [(generatePaginationSqlSnippet p, sqlParamsProp p)]"
    for sel :: "('d, 'e) select" and w :: "'d world"
    by (simp add: executeQuery_def db_select_def Let_def split: prod.splits sum.splits)
  have "sqlParamsProp p = params" by (simp add: p_def)
  with c v q e show ?thesis by (intro exI [of _ p]) simp
qed

theorem window_of_page_witness:
  "(1 :: int) \<le> 2 \<and> (0 :: int) < 10 \<and> (2 :: int) * 10 < 2 ^ 53 \<and>
   constructor ''SELECT id FROM t'' (Arr []) (Num 10) (Num 2) = Inr page_two \<and>
   offset (getLimitAndOffsetByPageAndContentPerPage page_two) = Finite 10 \<and>
   generatePaginationSqlSnippet page_two = ''SELECT id FROM t LIMIT 11 OFFSET 10''"
proof -
  have h1: "(1 :: int) \<le> 2" and h2: "(0 :: int) < 10" and h3: "(2 :: int) * 10 < 2 ^ 53"
    by simp_all
  have c: "constructor ''SELECT id FROM t'' (Arr []) (Num 10) (Num 2) = Inr page_two"
    by (simp add: constructor_Num page_two_def)
  from window_of_page [OF h1 h2 h3, of "''SELECT id FROM t''" "Arr []"] c
  have "offset (getLimitAndOffsetByPageAndContentPerPage page_two) = Finite 10 \<and>
    generatePaginationSqlSnippet page_two =
      ''SELECT id FROM t'' @ '' LIMIT '' @ digits 11 @ '' OFFSET '' @ digits 10"
    by auto
  with h1 h2 h3 c show ?thesis by (simp add: digits_10 digits_11)
qed

text \<open>
  C1, as stated, fails where the doubles round. Page size 3 and page 3002399751580331
  are integers below \<open>2^53\<close>; their product \<open>2^53 + 1\<close> is rounded to \<open>2^53\<close>, so the
  offset is 9007199254740989 where \<open>(pageNumber - 1) * pageSize\<close> is 9007199254740990.
  With a page size of \<open>2^53\<close> the limit plus one is rounded to \<open>2^53\<close>: the query asks
  for \<open>pageSize\<close> rows. With the page size \<open>0.1\<close>, the double
  \<open>3602879701896397 / 2^55\<close>, the offset of page 3 is one step of the doubles above
  \<open>(3 - 1) * pageSize\<close>, which is the double \<open>0.2\<close>. In the first and
  in the last case \<open>(pageNumber - 1) * pageSize\<close> is a double itself, and the doubles
  multiply to it exactly: the program subtracts after it has multiplied and rounded.
\<close>

theorem window_rounds_beyond_2_53:
  "is_double 3 \<and> is_double 3002399751580331 \<and>
   \<not> isl (constructor ''SELECT id FROM t'' (Arr []) (Num 3) (Num 3002399751580331)) \<and>
   offset (getLimitAndOffsetByPageAndContentPerPage
     (projr (constructor ''SELECT id FROM t'' (Arr []) (Num 3) (Num 3002399751580331)))) =
     Finite 9007199254740989 \<and>
   generatePaginationSqlSnippet
     (projr (constructor ''SELECT id FROM t'' (Arr []) (Num 3) (Num 3002399751580331))) =
     ''SELECT id FROM t LIMIT 4 OFFSET 9007199254740989'' \<and>
   (3002399751580331 - 1) * 3 = (9007199254740990 :: rat) \<and>
   js_mul (3002399751580331 - 1) 3 = Finite 9007199254740990 \<and>
   is_double 9007199254740992 \<and>
   generatePaginationSqlSnippet
     (projr (constructor ''SELECT id FROM t'' (Arr []) (Num 9007199254740992) (Num 1))) =
     ''SELECT id FROM t LIMIT 9007199254740992 OFFSET 0'' \<and>
   is_double (3602879701896397 / 36028797018963968) \<and>
   offset (getLimitAndOffsetByPageAndContentPerPage
     (projr (constructor ''SELECT id FROM t'' (Arr [])
        (Num (3602879701896397 / 36028797018963968)) (Num 3)))) =
     Finite (7205759403792795 / 36028797018963968) \<and>
   js_mul (3 - 1) (3602879701896397 / 36028797018963968) =
     Finite (7205759403792794 / 36028797018963968)"
proof -
  have d: "is_double 3" "is_double 3002399751580331" "is_double 9007199254740992"
    using is_double_of_int [of 3] is_double_of_int [of 3002399751580331]
      is_double_of_int [of 9007199254740992]
    by simp_all
  have o: "js_sub (js_mul 3002399751580331 3) 3 = Finite 9007199254740989"
    by code_simp
  have l: "js_add 9007199254740992 1 = Finite 9007199254740992"
    by code_simp
  have z: "js_sub (js_mul 1 9007199254740992) 9007199254740992 = Finite 0"
    using d(3) by (simp add: js_mul_def fl_double)
  note t = positive_to_string_2_53
  have "digits 9007199254740989 = ''9007199254740989''" by code_simp
  with positive_to_string_of_int [of 9007199254740989]
  have t': "positive_to_string 9007199254740989 = ''9007199254740989''" by simp
  have "digits 4 = ''4''" by code_simp
  with positive_to_string_of_int [of 4] have t4: "positive_to_string 4 = ''4''" by simp
  have l4: "js_add 3 1 = Finite 4" by (simp add: js_add_def fl_numeral)
  have f: "is_double (3602879701896397 / 36028797018963968)"
    by code_simp
  have g: "js_sub (js_mul 3 (3602879701896397 / 36028797018963968))
      (3602879701896397 / 36028797018963968) =
      Finite (7205759403792795 / 36028797018963968)"
    by code_simp
  have 1: "is_double 3 \<and> is_double 3002399751580331 \<and>
   \<not> isl (constructor ''SELECT id FROM t'' (Arr []) (Num 3) (Num 3002399751580331)) \<and>
   offset (getLimitAndOffsetByPageAndContentPerPage
     (projr (constructor ''SELECT id FROM t'' (Arr []) (Num 3) (Num 3002399751580331)))) =
     Finite 9007199254740989 \<and>
   generatePaginationSqlSnippet
     (projr (constructor ''SELECT id FROM t'' (Arr []) (Num 3) (Num 3002399751580331))) =
     ''SELECT id FROM t LIMIT 4 OFFSET 9007199254740989'' \<and>
   (3002399751580331 - 1) * 3 = (9007199254740990 :: rat) \<and>
   is_double 9007199254740992 \<and>
   generatePaginationSqlSnippet
     (projr (constructor ''SELECT id FROM t'' (Arr []) (Num 9007199254740992) (Num 1))) =
     ''SELECT id FROM t LIMIT 9007199254740992 OFFSET 0''"
    by (simp add: d constructor_Num getLimitAndOffsetByPageAndContentPerPage_def
        generatePaginationSqlSnippet_def currentPage_def perPage_def o l z t t' t4 l4)
  have 2: "offset (getLimitAndOffsetByPageAndContentPerPage
     (projr (constructor ''SELECT id FROM t'' (Arr [])
        (Num (3602879701896397 / 36028797018963968)) (Num 3)))) =
     Finite (7205759403792795 / 36028797018963968)"
    unfolding constructor_Num getLimitAndOffsetByPageAndContentPerPage_def
      currentPage_def perPage_def
    using g by simp
  have 3: "js_mul (3002399751580331 - 1) 3 = Finite 9007199254740990"
    by (simp add: js_mul_def fl_numeral)
  have 4: "js_mul (3 - 1) (3602879701896397 / 36028797018963968) =
     Finite (7205759403792794 / 36028797018963968)"
    by code_simp
  from 1 f 2 3 4 show ?thesis by (simp only: simp_thms)
qed

section \<open>Construction\<close>

text \<open>
  C4. Construction fails exactly when the page size is omitted, when a supplied page size
  is not a number, or when a supplied page number (neither omitted nor \<open>null\<close>) is not a
  number. The constructor returns the error itself, so it is raised at construction; the
  three codes are \<open>FILE\<close> followed by \<open>::MISSING_REQUIRED_PER_PAGE\<close>,
  \<open>::INVALID_TYPE_PER_PAGE\<close> and \<open>::INVALID_TYPE_CURRENT_PAGE\<close>, they differ from each
  other, the status is 500 and the payload holds the offending value. The page size is
  checked first, so the code of the page number is the one raised when the page size is
  a number.
\<close>

theorem configuration_errors:
  "(isl (constructor sql ps pp cp) \<longleftrightarrow>
      pp = Undefined \<or> (pp \<noteq> Undefined \<and> typeof pp \<noteq> ''number'') \<or>
      (cp \<noteq> Undefined \<and> cp \<noteq> Null \<and> typeof cp \<noteq> ''number'')) \<and>
   (pp = Undefined \<longrightarrow>
      (\<exists>m. constructor sql ps pp cp =
         Inl (LesgoException m (FILE @ ''::MISSING_REQUIRED_PER_PAGE'') 500
                [(''perPage'', pp)]))) \<and>
   (pp \<noteq> Undefined \<and> typeof pp \<noteq> ''number'' \<longrightarrow>
      (\<exists>m. constructor sql ps pp cp =
         Inl (LesgoException m (FILE @ ''::INVALID_TYPE_PER_PAGE'') 500
                [(''perPage'', pp)]))) \<and>
   (typeof pp = ''number'' \<and> cp \<noteq> Undefined \<and> cp \<noteq> Null \<and> typeof cp \<noteq> ''number'' \<longrightarrow>
      (\<exists>m. constructor sql ps pp cp =
         Inl (LesgoException m (FILE @ ''::INVALID_TYPE_CURRENT_PAGE'') 500
                [(''currentPage'', cp)]))) \<and>
   distinct [FILE @ ''::MISSING_REQUIRED_PER_PAGE'', FILE @ ''::INVALID_TYPE_PER_PAGE'',
             FILE @ ''::INVALID_TYPE_CURRENT_PAGE'']"
  by (cases pp; cases cp) (simp_all add: ctor_defs FILE_def)

theorem configuration_errors_witness:
  "code (projl (constructor ''SELECT id FROM t'' (Arr []) Undefined Undefined)) =
     ''Services/pagination/Paginator::MISSING_REQUIRED_PER_PAGE'' \<and>
   code (projl (constructor ''SELECT id FROM t'' (Arr []) (Str ''10'') (Num 2))) =
     ''Services/pagination/Paginator::INVALID_TYPE_PER_PAGE'' \<and>
   extra (projl (constructor ''SELECT id FROM t'' (Arr []) (Str ''10'') (Num 2))) =
     [(''perPage'', Str ''10'')] \<and>
   code (projl (constructor ''SELECT id FROM t'' (Arr []) (Num 10) (Str ''2''))) =
     ''Services/pagination/Paginator::INVALID_TYPE_CURRENT_PAGE'' \<and>
   extra (projl (constructor ''SELECT id FROM t'' (Arr []) (Num 10) (Str ''2''))) =
     [(''currentPage'', Str ''2'')] \<and>
   \<not> isl (constructor ''SELECT id FROM t'' (Arr []) (Num 10) (Num 2))"
  using configuration_errors [of "''SELECT id FROM t''" "Arr []" Undefined Undefined]
    configuration_errors [of "''SELECT id FROM t''" "Arr []" "Str ''10''" "Num 2"]
    configuration_errors [of "''SELECT id FROM t''" "Arr []" "Num 10" "Str ''2''"]
    configuration_errors [of "''SELECT id FROM t''" "Arr []" "Num 10" "Num 2"]
  by (auto simp: FILE_def)



text \<open>
  C10. The validation of the constructor looks at types only: it raises if and only if
  \<open>typeof\<close> the page size is \<open>undefined\<close> or is not \<open>number\<close>, or the page number is not
  \<open>null\<close> (after the default of an omitted one) and is not of type \<open>number\<close>. Every pair
  of numbers is accepted, zero, negative and fractional ones too: a page size of 0 gives
  the window \<open>LIMIT 1 OFFSET 0\<close>, and a negative page number gives an offset that is
  negative exactly when the page size is positive; it is \<open>pageNumber * pageSize -
  pageSize\<close> when the product and the difference are doubles.
\<close>

theorem validation_is_type_only:
  "(isl (constructor sql ps pp cp) \<longleftrightarrow>
      typeof pp = ''undefined'' \<or> typeof pp \<noteq> ''number'' \<or>
      (default_param cp Null \<noteq> Null \<and> typeof (default_param cp Null) \<noteq> ''number'')) \<and>
   (\<exists>p. constructor sql ps (Num pageSize) (Num pageNumber) = Inr p \<and>
        perPage p = pageSize \<and> currentPage p = (if pageNumber = 0 then 1 else pageNumber)) \<and>
   (\<exists>p. constructor sql ps (Num 0) (Num pageNumber) = Inr p \<and>
        generatePaginationSqlSnippet p = sql @ '' LIMIT 1 OFFSET 0'') \<and>
   (pageNumber < 0 \<and> is_double pageSize \<longrightarrow>
      (\<exists>p. constructor sql ps (Num pageSize) (Num pageNumber) = Inr p \<and>
           (negative (offset (getLimitAndOffsetByPageAndContentPerPage p)) \<longleftrightarrow>
              0 < pageSize) \<and>
           (is_double (pageNumber * pageSize) \<and>
            is_double (pageNumber * pageSize - pageSize) \<longrightarrow>
              offset (getLimitAndOffsetByPageAndContentPerPage p) =
                Finite (pageNumber * pageSize - pageSize))))"
proof -
  have a: "isl (constructor sql ps pp cp) \<longleftrightarrow>
      typeof pp = ''undefined'' \<or> typeof pp \<noteq> ''number'' \<or>
      (default_param cp Null \<noteq> Null \<and> typeof (default_param cp Null) \<noteq> ''number'')"
    by (cases pp; cases cp) (simp_all add: ctor_defs)
  have b: "\<exists>p. constructor sql ps (Num pageSize) (Num pageNumber) = Inr p \<and>
        perPage p = pageSize \<and> currentPage p = (if pageNumber = 0 then 1 else pageNumber)"
    by (simp add: constructor_Num perPage_def currentPage_def)
  have c: "\<exists>p. constructor sql ps (Num 0) (Num pageNumber) = Inr p \<and>
        generatePaginationSqlSnippet p = sql @ '' LIMIT 1 OFFSET 0''"
    by (simp add: constructor_Num generatePaginationSqlSnippet_def
        getLimitAndOffsetByPageAndContentPerPage_def perPage_def currentPage_def
        js_mul_def js_add_def positive_to_string_1)
  have d: "\<exists>p. constructor sql ps (Num pageSize) (Num pageNumber) = Inr p \<and>
           (negative (offset (getLimitAndOffsetByPageAndContentPerPage p)) \<longleftrightarrow>
              0 < pageSize) \<and>
           (is_double (pageNumber * pageSize) \<and>
            is_double (pageNumber * pageSize - pageSize) \<longrightarrow>
              offset (getLimitAndOffsetByPageAndContentPerPage p) =
                Finite (pageNumber * pageSize - pageSize))"
    if neg: "pageNumber < 0" and dbl: "is_double pageSize"
  proof -
    from neg dbl have s: "negative (js_sub (js_mul pageNumber pageSize) pageSize) \<longleftrightarrow>
        0 < pageSize"
      by (rule offset_sign)
    have x: "js_sub (js_mul pageNumber pageSize) pageSize =
        Finite (pageNumber * pageSize - pageSize)"
      if "is_double (pageNumber * pageSize)" and "is_double (pageNumber * pageSize - pageSize)"
      using that by (simp add: js_mul_def fl_double)
    from neg s x show ?thesis
      by (simp add: constructor_Num getLimitAndOffsetByPageAndContentPerPage_def
          perPage_def currentPage_def)
  qed
  from a b c d show ?thesis by blast
qed

theorem validation_is_type_only_witness:
  "\<not> isl (constructor ''SELECT id FROM t'' (Arr []) (Num (- 5 / 2)) (Num (1 / 2))) \<and>
   isl (constructor ''SELECT id FROM t'' (Arr []) Null (Num 1)) \<and>
   generatePaginationSqlSnippet (projr (constructor ''SELECT id FROM t'' (Arr []) (Num 0) (Num 7))) =
     ''SELECT id FROM t LIMIT 1 OFFSET 0'' \<and>
   (- 1 :: rat) < 0 \<and> is_double 10 \<and> is_double (- 1 * 10) \<and> is_double (- 1 * 10 - 10) \<and>
   offset (getLimitAndOffsetByPageAndContentPerPage
     (projr (constructor ''SELECT id FROM t'' (Arr []) (Num 10) (Num (- 1))))) = Finite (- 20) \<and>
   negative (offset (getLimitAndOffsetByPageAndContentPerPage
     (projr (constructor ''SELECT id FROM t'' (Arr []) (Num 10) (Num (- 1))))))"
proof -
  have d: "is_double 10" "is_double (- 1 * 10)" "is_double (- 1 * 10 - 10)"
    using is_double_of_int [of 10] is_double_of_int [of "- 10"] is_double_of_int [of "- 20"]
    by simp_all
  have n: "(- 1 :: rat) < 0" by simp
  from validation_is_type_only
      [of "''SELECT id FROM t''" "Arr []" "Num (- 5 / 2)" "Num (1 / 2)" 0 0]
  have 1: "\<not> isl (constructor ''SELECT id FROM t'' (Arr []) (Num (- 5 / 2)) (Num (1 / 2)))"
    by (simp add: default_param_def)
  from validation_is_type_only [of "''SELECT id FROM t''" "Arr []" Null "Num 1" 0 0]
  have 2: "isl (constructor ''SELECT id FROM t'' (Arr []) Null (Num 1))"
    by (simp add: default_param_def)
  from validation_is_type_only [of "''SELECT id FROM t''" "Arr []" Undefined Undefined 0 7]
  have 3: "generatePaginationSqlSnippet
      (projr (constructor ''SELECT id FROM t'' (Arr []) (Num 0) (Num 7))) =
     ''SELECT id FROM t LIMIT 1 OFFSET 0''"
    by auto
  from validation_is_type_only [of "''SELECT id FROM t''" "Arr []" Undefined Undefined 10 "- 1"]
    n d
  have 4: "offset (getLimitAndOffsetByPageAndContentPerPage
     (projr (constructor ''SELECT id FROM t'' (Arr []) (Num 10) (Num (- 1))))) = Finite (- 20) \<and>
   negative (offset (getLimitAndOffsetByPageAndContentPerPage
     (projr (constructor ''SELECT id FROM t'' (Arr []) (Num 10) (Num (- 1))))))"
    by auto
  from 1 2 3 4 n d show ?thesis by simp
qed

section \<open>The previous page\<close>

text \<open>
  C8. \<open>previousPage\<close> is \<open>false\<close> when the current page is 1 and the current page minus
  one, as the doubles subtract, when it is greater than 1: the exact difference whenever
  that is a double, as for every integer page up to \<open>2^53\<close>. It is a function of the
  instance alone, so it cannot reach the data source; its value does not depend on the
  cached rows or on \<open>hasNext\<close>, and it is the same before and after any accessor call,
  fetching or not.
\<close>

theorem previousPage_value:
  "(currentPage p = 1 \<longrightarrow> previousPage p = Bool False) \<and>
   (1 < currentPage p \<longrightarrow> previousPage p = Num (round_double (currentPage p - 1))) \<and>
   (1 < currentPage p \<and> is_double (currentPage p - 1) \<longrightarrow>
      previousPage p = Num (currentPage p - 1)) \<and>
   previousPage (p\<lparr> hasNext := h, response := rows \<rparr>) = previousPage p \<and>
   previousPage (fst (snd (call sel a (p, w)))) = previousPage p"
proof -
  have "config (fst (snd (call sel a (p, w)))) = config p"
    by (simp add: call_config)
  then have "previousPage (fst (snd (call sel a (p, w)))) = previousPage p"
    by (rule config_previousPage)
  then show ?thesis by (simp add: previousPage_def currentPage_def is_double_def)
qed

theorem previousPage_value_witness:
  "currentPage page_one = 1 \<and> previousPage page_one = Bool False \<and>
   1 < currentPage page_two \<and> is_double (currentPage page_two - 1) \<and>
   previousPage page_two = Num 1"
proof -
  have one: "currentPage page_one = 1" and two: "1 < currentPage page_two"
    and val: "currentPage page_two - 1 = 1"
    by (simp_all add: page_one_def page_two_def currentPage_def)
  have d: "is_double (currentPage page_two - 1)"
    using is_double_of_int [of 1] by (simp add: val)
  from one previousPage_value [of page_one] have "previousPage page_one = Bool False"
    by blast
  moreover from two d previousPage_value [of page_two]
  have "previousPage page_two = Num (currentPage page_two - 1)"
    by blast
  ultimately show ?thesis using one two val d by simp
qed

section \<open>One fetch\<close>



section \<open>Caching\<close>

text \<open>
  C3, as amended. The cache counts as populated only when it holds a row. On an instance
  that has not fetched yet, when the first execution succeeds and leaves at least one
  row in the cache, every non-empty sequence of awaited accessor calls (\<open>count\<close>,
  \<open>nextPage\<close>, \<open>firstItem\<close>, \<open>lastItem\<close>, \<open>items\<close>, \<open>toObject\<close>) executes the query
  exactly once, and the instance stays as that execution left it. The constructor has
  no access to the data source and leaves the cache empty.
\<close>

theorem one_execution_once_cached:
  assumes "response p = []"
    and "executeQuery sel (p, w) = (Inr (Arr cached), s1)"
    and "cached \<noteq> []"
    and "as \<noteq> []"
  shows "executed (snd (snd (calls sel as (p, w)))) =
           executed w @ [(generatePaginationSqlSnippet p, sqlParamsProp p)] \<and>
         fst (snd (calls sel as (p, w))) = fst s1 \<and>
         (\<forall>sql ps pp cp p0. constructor sql ps pp cp = Inr p0 \<longrightarrow> response p0 = [])"
proof -
  from assms(4) obtain a as' where as: "as = a # as'" by (cases as) auto
  obtain p1 w1 where s1: "s1 = (p1, w1)" by (cases s1)
  from executeQuery_result [OF assms(2)] assms(3) s1
  have r: "response p1 = cached" "response p1 \<noteq> []"
    and e: "executed w1 = executed w @ [(generatePaginationSqlSnippet p, sqlParamsProp p)]"
    by simp_all
  from r(2) s1 have "response (fst s1) \<noteq> []" by simp
  with assms(1,2) have "snd (call sel a (p, w)) = s1" by (rule call_after_fetch)
  then have "snd (calls sel as (p, w)) = snd (calls sel as' (p1, w1))"
    unfolding as snd_calls_Cons s1 by simp
  also from r(2) have "\<dots> = (p1, w1)" by (rule calls_cached)
  finally have "snd (calls sel as (p, w)) = (p1, w1)" .
  with e s1 show ?thesis by (auto dest: constructor_Inr)
qed

theorem one_execution_once_cached_witness:
  "response page_two = [] \<and>
   fst (executeQuery (source_rows 11) (page_two, world0 ())) = Inr (Arr (map row [0..<10])) \<and>
   map row [0..<10] \<noteq> [] \<and> [Count, Items] \<noteq> [] \<and>
   executed (snd (snd (calls (source_rows 11) [Count, Items] (page_two, world0 ())))) =
     [(''SELECT id FROM t LIMIT 11 OFFSET 10'', Arr [])]"
proof -
  have r: "response page_two = []" by (simp add: page_two_def)
  have s11: "fst (source_rows 11 (db (world0 ())) (generatePaginationSqlSnippet page_two)
          (sqlParamsProp page_two)) = Inr (map row [0..<11])"
    by (simp add: source_rows_def)
  have t: "butlast (map row [0..<11]) = map row [0..<10]"
    by (simp add: butlast_conv_take take_map)
  from s11 have "executeQuery (source_rows 11) (page_two, world0 ()) =
           (Inr (Arr (if perPage page_two < of_nat (length (map row [0..<11]))
                      then butlast (map row [0..<11]) else map row [0..<11])),
            (page_two\<lparr> hasNext := perPage page_two < of_nat (length (map row [0..<11])),
                response := (if perPage page_two < of_nat (length (map row [0..<11]))
                      then butlast (map row [0..<11]) else map row [0..<11]) \<rparr>,
             (world0 ())\<lparr> db := snd (source_rows 11 (db (world0 ()))
                   (generatePaginationSqlSnippet page_two) (sqlParamsProp page_two)),
                executed := executed (world0 ()) @
                  [(generatePaginationSqlSnippet page_two, sqlParamsProp page_two)] \<rparr>))"
    by (rule executeQuery_ok)
  then have f: "fst (executeQuery (source_rows 11) (page_two, world0 ())) =
      Inr (Arr (map row [0..<10]))"
    by (simp add: t perPage_def page_two_def)
  then have x: "executeQuery (source_rows 11) (page_two, world0 ()) =
      (Inr (Arr (map row [0..<10])), snd (executeQuery (source_rows 11) (page_two, world0 ())))"
    by (simp add: prod_eq_iff)
  have ne: "map row [0..<10] \<noteq> []" and ne': "[Count, Items] \<noteq> []" by simp_all
  have q: "generatePaginationSqlSnippet page_two = ''SELECT id FROM t LIMIT 11 OFFSET 10''"
    by (rule snippet_page_two)
  have "executed (world0 ()) = []" "sqlParamsProp page_two = Arr []"
    by (simp_all add: world0_def page_two_def)
  with one_execution_once_cached [OF r x ne ne'] q r f show ?thesis by simp
qed

text \<open>
  C3, as stated, fails when a fetch succeeds with no rows: the cache stays empty, so
  \<open>count\<close> and then \<open>items\<close> on page two of an empty source execute the query twice,
  both with success.
\<close>

theorem empty_page_is_fetched_again:
  "constructor ''SELECT id FROM t'' (Arr []) (Num 10) (Num 2) = Inr page_two \<and>
   fst (calls (source_rows 0) [Count, Items] (page_two, world0 ())) =
     [Inr (Num 0), Inr (Arr [])] \<and>
   length (executed (snd (snd (calls (source_rows 0) [Count, Items] (page_two, world0 ()))))) = 2"
  by (simp add: constructor_Num page_two_def source_rows_def world0_def count_def items_def
      executeQuery_def db_select_def Let_def perPage_def)

text \<open>
  C6, as amended. On an instance that has not fetched yet, with a page size of at least 0
  and a data source that answers the windowed query with at most \<open>pageSize + 1\<close> rows
  (the limit it was sent), the cache holds at most \<open>pageSize\<close> rows after every sequence
  of accessor calls, whether they succeed or fail.
\<close>

theorem cached_rows_within_page_size:
  assumes "response p = []" and "0 \<le> perPage p"
    and "\<And>d rows. fst (sel d (generatePaginationSqlSnippet p) (sqlParamsProp p)) = Inr rows
            \<Longrightarrow> of_nat (length rows) \<le> perPage p + 1"
  shows "of_nat (length (response (fst (snd (calls sel as (p, w)))))) \<le> perPage p"
proof -
  from assms(1,2) have "page_bounded p (p, w)" by (simp add: page_bounded_def)
  with assms(3) have "page_bounded p (snd (calls sel as (p, w)))" by (rule calls_bounded)
  then show ?thesis by (simp add: page_bounded_def)
qed

theorem cached_rows_within_page_size_witness:
  "response page_two = [] \<and> 0 \<le> perPage page_two \<and>
   fst (source_rows 11 () (generatePaginationSqlSnippet page_two) (sqlParamsProp page_two)) =
     Inr (map row [0..<11]) \<and>
   (of_nat (length (map row [0..<11])) :: rat) \<le> perPage page_two + 1 \<and>
   response (fst (snd (calls (source_rows 11) [Count, ToObject] (page_two, world0 ())))) =
     map row [0..<10] \<and>
   (of_nat (length (response (fst (snd
       (calls (source_rows 11) [Count, ToObject] (page_two, world0 ())))))) :: rat) \<le> 10"
proof -
  have r: "response page_two = []" and n: "0 \<le> perPage page_two"
    and pp: "perPage page_two = 10"
    by (simp_all add: page_two_def perPage_def)
  have lim: "of_nat (length rows) \<le> perPage page_two + 1"
    if "fst (source_rows 11 d (generatePaginationSqlSnippet page_two)
              (sqlParamsProp page_two)) = Inr rows" for d rows
    using that by (auto simp: source_rows_def pp)
  have t: "butlast (map row [0..<11]) = map row [0..<10]"
    by (simp add: butlast_conv_take take_map)
  have v: "response (fst (snd (calls (source_rows 11) [Count, ToObject] (page_two, world0 ())))) =
     map row [0..<10]"
    by (simp add: count_def toObject_def nextPage_def items_def executeQuery_def db_select_def
        source_rows_def Let_def perPage_def page_two_def t)
  from cached_rows_within_page_size [where sel = "source_rows 11" and as = "[Count, ToObject]" and w = "world0 ()",
      OF r n lim]
  have "(of_nat (length (response (fst (snd
       (calls (source_rows 11) [Count, ToObject] (page_two, world0 ())))))) :: rat) \<le> 10"
    by (simp add: pp)
  moreover have "fst (source_rows 11 () (generatePaginationSqlSnippet page_two)
      (sqlParamsProp page_two)) = Inr (map row [0..<11])"
    by (simp add: source_rows_def)
  moreover have "(of_nat (length (map row [0..<11])) :: rat) \<le> perPage page_two + 1"
    by (simp add: pp)
  ultimately show ?thesis using r n v by blast
qed

text \<open>
  C6, as stated, fails for a data source that answers with more rows than the limit:
  \<open>executeQuery\<close> removes one row only, so thirteen rows for page two of size ten leave
  twelve rows in the cache. It fails too for a negative page size, which the constructor
  accepts: the empty cache then holds more rows than the page size.
\<close>

theorem more_rows_than_the_limit:
  "constructor ''SELECT id FROM t'' (Arr []) (Num 10) (Num 2) = Inr page_two \<and>
   perPage page_two = 10 \<and>
   fst (count (source_rows 13) (page_two, world0 ())) = Inr (Num 12) \<and>
   length (response (fst (snd (count (source_rows 13) (page_two, world0 ()))))) = 12 \<and>
   \<not> isl (constructor ''SELECT id FROM t'' (Arr []) (Num (- 1)) (Num 1)) \<and>
   perPage (projr (constructor ''SELECT id FROM t'' (Arr []) (Num (- 1)) (Num 1))) = - 1 \<and>
   fst (count (source_rows 0)
     (projr (constructor ''SELECT id FROM t'' (Arr []) (Num (- 1)) (Num 1)), world0 ())) =
     Inr (Num 0)"
proof -
  have "response page_two = []" by (simp add: page_two_def)
  then have "count (source_rows 13) (page_two, world0 ()) =
     (Inr (Num 12),
      (page_two\<lparr> hasNext := True, response := map row [0..<12] \<rparr>,
       \<lparr> db = (), executed = [(''SELECT id FROM t LIMIT 11 OFFSET 10'', Arr [])] \<rparr>))"
    by (simp add: count_def executeQuery_13)
  moreover have "constructor ''SELECT id FROM t'' (Arr []) (Num 10) (Num 2) = Inr page_two"
    by (simp add: constructor_Num page_two_def)
  moreover have "perPage page_two = 10" by (simp add: perPage_def page_two_def)
  moreover have "\<not> isl (constructor ''SELECT id FROM t'' (Arr []) (Num (- 1)) (Num 1)) \<and>
   perPage (projr (constructor ''SELECT id FROM t'' (Arr []) (Num (- 1)) (Num 1))) = - 1 \<and>
   fst (count (source_rows 0)
     (projr (constructor ''SELECT id FROM t'' (Arr []) (Num (- 1)) (Num 1)), world0 ())) =
     Inr (Num 0)"
    by (simp add: constructor_Num source_rows_def world0_def count_def
        executeQuery_def db_select_def Let_def perPage_def)
  ultimately show ?thesis by simp
qed

section \<open>A failing data source\<close>

text \<open>
  C7. When the data source fails at the fetch an accessor triggers, the accessor gives
  that same error, the instance is unchanged (its cache is still empty) and the failed
  execution is in the log. Whenever an accessor gives an error at all (also \<open>toObject\<close>,
  at one of its later fetches), the error is one the data source gave to the windowed
  query, the cache is empty, and whatever accessor is called next executes the windowed
  query again, as its first step.
\<close>

theorem failed_fetch_is_retryable:
  "(response p = [] \<and>
    fst (sel (db w) (generatePaginationSqlSnippet p) (sqlParamsProp p)) = Inl e \<longrightarrow>
      (\<exists>w'. call sel a (p, w) = (Inl e, (p, w')) \<and>
            executed w' = executed w @ [(generatePaginationSqlSnippet p, sqlParamsProp p)])) \<and>
   (call sel a (p, w) = (Inl e, (p', w')) \<longrightarrow>
      response p' = [] \<and>
      (\<exists>d. fst (sel d (generatePaginationSqlSnippet p) (sqlParamsProp p)) = Inl e) \<and>
      (\<forall>a'. \<exists>rest. executed (snd (snd (call sel a' (p', w')))) =
         executed w' @ (generatePaginationSqlSnippet p, sqlParamsProp p) # rest))"
proof (rule conjI; rule impI)
  assume h: "response p = [] \<and>
    fst (sel (db w) (generatePaginationSqlSnippet p) (sqlParamsProp p)) = Inl e"
  define w1 where
    "w1 = w\<lparr> db := snd (sel (db w) (generatePaginationSqlSnippet p) (sqlParamsProp p)),
              executed := executed w @ [(generatePaginationSqlSnippet p, sqlParamsProp p)] \<rparr>"
  from h have "response p = []"
    and "fst (sel (db w) (generatePaginationSqlSnippet p) (sqlParamsProp p)) = Inl e"
    by simp_all
  then have "call sel a (p, w) = (Inl e, (p, w1))"
    unfolding w1_def by (rule call_fetch_fails)
  moreover have "executed w1 =
      executed w @ [(generatePaginationSqlSnippet p, sqlParamsProp p)]"
    by (simp add: w1_def)
  ultimately show "\<exists>w'. call sel a (p, w) = (Inl e, (p, w')) \<and>
      executed w' = executed w @ [(generatePaginationSqlSnippet p, sqlParamsProp p)]"
    by (intro exI [of _ w1] conjI)
next
  assume r: "call sel a (p, w) = (Inl e, (p', w'))"
  have "fails_with sel p (call sel a (p, w))" by (rule call_fails_with)
  then have "fails_with sel p (Inl e, (p', w'))" by (simp only: r)
  then have emp: "response p' = []"
    and err: "\<exists>d. fst (sel d (generatePaginationSqlSnippet p) (sqlParamsProp p)) = Inl e"
    by (simp_all add: fails_with_def)
  have "config (fst (snd (call sel a (p, w)))) = config (fst (p, w))" by (rule call_config)
  then have c: "config p' = config p" by (simp add: r)
  have again: "\<exists>rest. executed (snd (snd (call sel a' (p', w')))) =
         executed w' @ (generatePaginationSqlSnippet p, sqlParamsProp p) # rest" for a'
  proof -
    from emp have "\<exists>rest. executed (snd (snd (call sel a' (p', w')))) =
         executed w' @ (generatePaginationSqlSnippet p', sqlParamsProp p') # rest"
      by (rule call_unfetched_first)
    then show ?thesis by (simp only: config_snippet [OF c] config_params [OF c])
  qed
  show "response p' = [] \<and>
      (\<exists>d. fst (sel d (generatePaginationSqlSnippet p) (sqlParamsProp p)) = Inl e) \<and>
      (\<forall>a'. \<exists>rest. executed (snd (snd (call sel a' (p', w')))) =
         executed w' @ (generatePaginationSqlSnippet p, sqlParamsProp p) # rest)"
    using emp err again by (intro conjI allI)
qed

theorem failed_fetch_is_retryable_witness:
  "response page_two = [] \<and>
   fst (fails_first (db (world0 0)) (generatePaginationSqlSnippet page_two)
          (sqlParamsProp page_two)) = Inl ''ECONNREFUSED'' \<and>
   fst (call fails_first Count (page_two, world0 0)) = Inl ''ECONNREFUSED'' \<and>
   fst (snd (call fails_first Count (page_two, world0 0))) = page_two \<and>
   fst (call fails_first Count (snd (call fails_first Count (page_two, world0 0)))) =
     Inr (Num 5) \<and>
   length (executed (snd (snd
     (call fails_first Count (snd (call fails_first Count (page_two, world0 0))))))) = 2"
proof -
  have r: "response page_two = []" by (simp add: page_two_def)
  have f: "fst (fails_first (db (world0 0)) (generatePaginationSqlSnippet page_two)
          (sqlParamsProp page_two)) = Inl ''ECONNREFUSED''"
    by (simp add: fails_first_def world0_def)
  from failed_fetch_is_retryable [where p = page_two and sel = fails_first and w = "world0 0"
      and e = "''ECONNREFUSED''" and a = Count] r f obtain w'
    where c: "call fails_first Count (page_two, world0 0) = (Inl ''ECONNREFUSED'', (page_two, w'))"
    by blast
  have "fst (call fails_first Count (snd (call fails_first Count (page_two, world0 0)))) =
     Inr (Num 5) \<and>
   length (executed (snd (snd
     (call fails_first Count (snd (call fails_first Count (page_two, world0 0))))))) = 2"
    by (simp add: count_def executeQuery_def db_select_def fails_first_def world0_def
        page_two_def perPage_def Let_def)
  with r f c show ?thesis by simp
qed

section \<open>The summary\<close>

text \<open>
  C9. When \<open>toObject\<close> succeeds, it has first fetched if the cache was empty, and then
  called \<open>count\<close>, \<open>nextPage\<close> and \<open>items\<close> in this order on the instance; its value is
  the object of the six fields \<open>count\<close>, \<open>previous_page\<close>, \<open>current_page\<close>, \<open>next_page\<close>,
  \<open>per_page\<close> and \<open>items\<close>, holding the results of these calls and of \<open>previousPage\<close>,
  \<open>currentPage\<close> and \<open>perPage\<close>. When the first step leaves a row in the cache, the
  three calls do not fetch, and they give the same results on the final instance. An
  instance with an empty cache executes the windowed query first; one with a populated
  cache is left as it was.
\<close>

theorem toObject_fields:
  assumes "toObject sel s = (Inr v, s')"
  shows "\<exists>r0 s1 c s2 n s3 it.
           (if length (response (fst s)) \<le> 0 then executeQuery sel s else (Inr Undefined, s)) =
             (Inr r0, s1) \<and>
           count sel s1 = (Inr c, s2) \<and> nextPage sel s2 = (Inr n, s3) \<and>
           items sel s3 = (Inr it, s') \<and>
           v = Obj [(''count'', c),
                    (''previous_page'', previousPage (fst s')),
                    (''current_page'', Num (currentPage (fst s'))),
                    (''next_page'', n),
                    (''per_page'', Num (perPage (fst s'))),
                    (''items'', it)] \<and>
           (response (fst s1) \<noteq> [] \<longrightarrow>
              s' = s1 \<and> count sel s' = (Inr c, s') \<and> nextPage sel s' = (Inr n, s') \<and>
              items sel s' = (Inr it, s')) \<and>
           (response (fst s) = [] \<longrightarrow>
              (\<exists>rest. executed (snd s') = executed (snd s) @
                 (generatePaginationSqlSnippet (fst s), sqlParamsProp (fst s)) # rest)) \<and>
           (response (fst s) \<noteq> [] \<longrightarrow> s' = s)"
proof -
  obtain p w where s: "s = (p, w)" by (cases s)
  have fetched: "\<exists>rest. executed (snd s') = executed (snd s) @
                 (generatePaginationSqlSnippet (fst s), sqlParamsProp (fst s)) # rest"
    if "response (fst s) = []"
  proof -
    from that s have "response p = []" by simp
    from call_unfetched_first [OF this, of sel ToObject w] assms s show ?thesis by simp
  qed
  have reused: "s' = s" if "response (fst s) \<noteq> []"
  proof -
    from that s have "response p \<noteq> []" by simp
    from call_cached [OF this, of sel ToObject w] assms s show ?thesis by simp
  qed
  from assms obtain r0 s1 where
    f: "(if length (response (fst s)) \<le> 0 then executeQuery sel s else (Inr Undefined, s)) =
          (Inr r0, s1)"
    and k1: "await (count sel s1)
         (\<lambda>c s2. await (nextPage sel s2)
           (\<lambda>n s3. await (items sel s3)
             (\<lambda>it s4. (Inr (Obj [(''count'', c),
                                  (''previous_page'', previousPage (fst s2)),
                                  (''current_page'', Num (currentPage (fst s2))),
                                  (''next_page'', n),
                                  (''per_page'', Num (perPage (fst s3))),
                                  (''items'', it)]), s4)))) = (Inr v, s')"
    unfolding toObject_def by (rule await_InrE)
  from k1 obtain c s2 where
    c: "count sel s1 = (Inr c, s2)"
    and k2: "await (nextPage sel s2)
           (\<lambda>n s3. await (items sel s3)
             (\<lambda>it s4. (Inr (Obj [(''count'', c),
                                  (''previous_page'', previousPage (fst s2)),
                                  (''current_page'', Num (currentPage (fst s2))),
                                  (''next_page'', n),
                                  (''per_page'', Num (perPage (fst s3))),
                                  (''items'', it)]), s4))) = (Inr v, s')"
    by (rule await_InrE)
  from k2 obtain n s3 where
    n: "nextPage sel s2 = (Inr n, s3)"
    and k3: "await (items sel s3)
             (\<lambda>it s4. (Inr (Obj [(''count'', c),
                                  (''previous_page'', previousPage (fst s2)),
                                  (''current_page'', Num (currentPage (fst s2))),
                                  (''next_page'', n),
                                  (''per_page'', Num (perPage (fst s3))),
                                  (''items'', it)]), s4)) = (Inr v, s')"
    by (rule await_InrE)
  from k3 obtain it s4 where
    i: "items sel s3 = (Inr it, s4)"
    and k4: "(Inr (Obj [(''count'', c),
                                  (''previous_page'', previousPage (fst s2)),
                                  (''current_page'', Num (currentPage (fst s2))),
                                  (''next_page'', n),
                                  (''per_page'', Num (perPage (fst s3))),
                                  (''items'', it)]), s4) = (Inr v, s')"
    by (rule await_InrE) blast
  from k4 have s4: "s4 = s'" by simp
  have c3: "config (fst s') = config (fst s3)"
    using items_config [of sel s3] i s4 by simp
  have c2: "config (fst s3) = config (fst s2)"
    using nextPage_config [of sel s2] n by simp
  from c3 c2 have c32: "config (fst s') = config (fst s2)" by simp
  have v: "v = Obj [(''count'', c),
                    (''previous_page'', previousPage (fst s')),
                    (''current_page'', Num (currentPage (fst s'))),
                    (''next_page'', n),
                    (''per_page'', Num (perPage (fst s'))),
                    (''items'', it)]"
    using k4 config_previousPage [OF c32] config_currentPage [OF c32] config_perPage [OF c3]
    by simp
  have cached: "s' = s1 \<and> count sel s' = (Inr c, s') \<and> nextPage sel s' = (Inr n, s') \<and>
              items sel s' = (Inr it, s')" if ne: "response (fst s1) \<noteq> []"
  proof -
    obtain p1 w1 where s1: "s1 = (p1, w1)" by (cases s1)
    with ne have ne1: "response p1 \<noteq> []" by simp
    from c s1 count_cached [OF ne1, of sel w1] have "s2 = s1" by simp
    moreover from n this s1 nextPage_cached [OF ne1, of sel w1] have "s3 = s1" by simp
    moreover from i this s1 s4 items_cached [OF ne1, of sel w1] have "s' = s1" by simp
    ultimately show ?thesis using c n i s4 by simp
  qed
  from f c n i s4 v cached fetched reused show ?thesis by blast
qed

theorem toObject_fields_witness:
  "toObject (source_rows 11) (page_two, world0 ()) = (Inr summary11, fetched11) \<and>
   count (source_rows 11) fetched11 = (Inr (Num 10), fetched11) \<and>
   nextPage (source_rows 11) fetched11 = (Inr (Num 3), fetched11) \<and>
   items (source_rows 11) fetched11 = (Inr (Arr (map row [0..<10])), fetched11)"
proof -
  have r: "response page_two = []" by (simp add: page_two_def)
  have ne: "response (fst fetched11) \<noteq> []" by (simp add: fetched11_def)
  have c: "count (source_rows 11) fetched11 = (Inr (Num 10), fetched11)"
    and n: "nextPage (source_rows 11) fetched11 = (Inr (Num 3), fetched11)"
    and i: "items (source_rows 11) fetched11 = (Inr (Arr (map row [0..<10])), fetched11)"
    by (simp_all add: fetched11_def count_def nextPage_def items_def currentPage_def page_two_def
        round_double_numeral)
  have sync: "previousPage (fst fetched11) = Num 1" "currentPage (fst fetched11) = 2"
    "perPage (fst fetched11) = 10"
    by (simp_all add: fetched11_def previousPage_def currentPage_def perPage_def page_two_def)
  have ev: "toObject (source_rows 11) (page_two, world0 ()) = (Inr summary11, fetched11)"
    by (simp add: toObject_def r executeQuery_page_two c n i sync summary11_def)
  from toObject_fields [OF ev] obtain r0 s1 c n it where
    f: "(if length (response (fst (page_two, world0 ()))) \<le> 0
         then executeQuery (source_rows 11) (page_two, world0 ())
         else (Inr Undefined, (page_two, world0 ()))) = (Inr r0, s1)"
    and v: "summary11 = Obj [(''count'', c),
                    (''previous_page'', previousPage (fst fetched11)),
                    (''current_page'', Num (currentPage (fst fetched11))),
                    (''next_page'', n),
                    (''per_page'', Num (perPage (fst fetched11))),
                    (''items'', it)]"
    and cached: "response (fst s1) \<noteq> [] \<longrightarrow>
              fetched11 = s1 \<and> count (source_rows 11) fetched11 = (Inr c, fetched11) \<and>
              nextPage (source_rows 11) fetched11 = (Inr n, fetched11) \<and>
              items (source_rows 11) fetched11 = (Inr it, fetched11)"
    by blast
  from f r have "s1 = fetched11" by (simp add: executeQuery_page_two)
  with ne cached have "count (source_rows 11) fetched11 = (Inr c, fetched11) \<and>
              nextPage (source_rows 11) fetched11 = (Inr n, fetched11) \<and>
              items (source_rows 11) fetched11 = (Inr it, fetched11)"
    by simp
  moreover from v have "c = Num 10" "n = Num 3" "it = Arr (map row [0..<10])"
    by (simp_all add: summary11_def)
  ultimately show ?thesis using ev by simp
qed

end
